theory Spec2Isabelle
  imports Main "HOL-Library.Word" "HOL-Library.List_Lexorder"
begin

unbundle bit_operations_syntax

section \<open>Python values used by the storage and index layers\<close>

text \<open>
  Python \<open>bytes\<close> are lists of 8-bit words; their comparison operators are the
  lexicographic order on unsigned bytes, a proper prefix being smaller, which is the order
  that \<open>List_Lexorder\<close> puts on lists.  A Python \<open>str\<close> is a list of Unicode code
  points.  Python integers are unbounded.
\<close>

type_synonym byte = "8 word"
type_synonym bytes = "byte list"
type_synonym pystr = "nat list"

datatype error =
    StructError
  | UnicodeEncodeError
  | TypeError
  | ValueError
  | IndexError
  | RuntimeError
  | AttributeError
  | OSError
  | FileExistsError
  | FileNotFoundError

text \<open>
  A key handed to a tree.  \<open>isinstance(key, int)\<close> holds for \<open>KInt\<close> (which also
  covers \<open>bool\<close>), \<open>isinstance(key, str)\<close> for \<open>KStr\<close>, \<open>isinstance(key, bytes)\<close>
  for \<open>KBytes\<close>.  \<open>KOther s\<close> is an object of any other type (a float, a tuple,
  \<open>None\<close>, ...) whose \<open>str()\<close> is \<open>s\<close>.
\<close>

datatype pykey = KInt int | KStr pystr | KBytes bytes | KOther pystr

subsection \<open>\<open>struct.pack\<close> of unsigned integers\<close>

text \<open>\<open>be_bytes n k\<close>: the \<open>n\<close> low bytes of \<open>k\<close>, most significant first.\<close>

fun be_bytes :: "nat \<Rightarrow> int \<Rightarrow> bytes" where
  "be_bytes 0 k = []"
| "be_bytes (Suc n) k = word_of_int (k div 256 ^ n) # be_bytes n (k mod 256 ^ n)"

text \<open>\<open>le_bytes n k\<close>: the \<open>n\<close> low bytes of \<open>k\<close>, least significant first.\<close>

fun le_bytes :: "nat \<Rightarrow> int \<Rightarrow> bytes" where
  "le_bytes 0 k = []"
| "le_bytes (Suc n) k = word_of_int (k mod 256) # le_bytes n (k div 256)"

text \<open>
  \<open>struct.pack\<close> with a format of one unsigned field of \<open>n\<close> bytes raises
  \<open>struct.error\<close> when the argument is negative or does not fit.
\<close>

definition pack_be :: "nat \<Rightarrow> int \<Rightarrow> error + bytes" where
  "pack_be n k = (if 0 \<le> k \<and> k < 256 ^ n then Inr (be_bytes n k) else Inl StructError)"

definition pack_le :: "nat \<Rightarrow> int \<Rightarrow> error + bytes" where
  "pack_le n k = (if 0 \<le> k \<and> k < 256 ^ n then Inr (le_bytes n k) else Inl StructError)"

subsection \<open>\<open>str.encode('utf-8')\<close>\<close>

text \<open>
  One code point in UTF-8.  The surrogates \<open>U+D800..U+DFFF\<close> cannot be encoded
  (\<open>UnicodeEncodeError\<close>); a Python \<open>str\<close> holds no code point above \<open>U+10FFFF\<close>.
\<close>

definition utf8_char :: "nat \<Rightarrow> error + bytes" where
  "utf8_char c =
     (if c < 0x80 then Inr [of_nat c]
      else if c < 0x800 then Inr [of_nat (0xC0 + c div 64), of_nat (0x80 + c mod 64)]
      else if c < 0x10000 then
        (if 0xD800 \<le> c \<and> c \<le> 0xDFFF then Inl UnicodeEncodeError
         else Inr [of_nat (0xE0 + c div 4096), of_nat (0x80 + c div 64 mod 64),
                   of_nat (0x80 + c mod 64)])
      else if c < 0x110000 then
        Inr [of_nat (0xF0 + c div 262144), of_nat (0x80 + c div 4096 mod 64),
             of_nat (0x80 + c div 64 mod 64), of_nat (0x80 + c mod 64)]
      else Inl UnicodeEncodeError)"

fun encode_utf8 :: "pystr \<Rightarrow> error + bytes" where
  "encode_utf8 [] = Inr []"
| "encode_utf8 (c # cs) =
     (case utf8_char c of
        Inl e \<Rightarrow> Inl e
      | Inr b \<Rightarrow> (case encode_utf8 cs of Inl e \<Rightarrow> Inl e | Inr bs \<Rightarrow> Inr (b @ bs)))"

subsection \<open>\<open>str()\<close> of a \<open>bytes\<close> object\<close>

text \<open>
  \<open>str(b)\<close> of a \<open>bytes\<close> object is its \<open>repr\<close>: the letter \<open>b\<close>, a quote, the
  bytes with the non-printable ones escaped, and the quote again.  The quote is the double
  quote when the bytes hold a single quote and no double quote, the single quote otherwise.
\<close>

definition hexdigit :: "nat \<Rightarrow> nat" where
  "hexdigit d = (if d < 10 then 48 + d else 87 + d)"

definition repr_byte :: "nat \<Rightarrow> nat \<Rightarrow> pystr" where
  "repr_byte quote c =
     (if c = quote \<or> c = 92 then [92, c]
      else if c = 9 then [92, 116]
      else if c = 10 then [92, 110]
      else if c = 13 then [92, 114]
      else if c < 32 \<or> c \<ge> 127 then [92, 120, hexdigit (c div 16), hexdigit (c mod 16)]
      else [c])"

definition bytes_repr :: "bytes \<Rightarrow> pystr" where
  "bytes_repr b =
     (let cs = map unat b;
          quote = (if 39 \<in> set cs \<and> 34 \<notin> set cs then 34 else 39)
      in [98, quote] @ concat (map (repr_byte quote) cs) @ [quote])"

section \<open>Key serialization\<close>

text \<open>
  \<open>SimpleBPlusTree._serialize_key\<close> (the tree behind \<open>IndexManager\<close>): an \<open>int\<close> is
  packed with \<open>">Q"\<close>, a \<open>str\<close> is encoded, anything else is turned into its \<open>str()\<close>
  and encoded.
\<close>

fun py_str :: "pykey \<Rightarrow> pystr" where
  "py_str (KBytes b) = bytes_repr b"
| "py_str (KOther s) = s"
| "py_str (KStr s) = s"
| "py_str (KInt k) = []"

fun serialize_key :: "pykey \<Rightarrow> error + bytes" where
  "serialize_key (KInt k) = pack_be 8 k"
| "serialize_key (KStr s) = encode_utf8 s"
| "serialize_key key = encode_utf8 (py_str key)"

text \<open>
  \<open>BPlusTree._serialize_key\<close> of \<open>bplus_tree.py\<close>: an \<open>int\<close> is packed with
  \<open>"<Q"\<close>, a \<open>str\<close> is encoded and then cut or zero-padded to \<open>key_size\<close> bytes, a
  \<open>bytes\<close> key is returned as it is, any other key raises \<open>TypeError\<close>.
  \<open>py_slice_to\<close> is the slice \<open>xs[:n]\<close>, \<open>ljust\<close> is \<open>bytes.ljust\<close>.
\<close>

definition py_slice_to :: "'a list \<Rightarrow> int \<Rightarrow> 'a list" where
  "py_slice_to xs n = (if n < 0 then take (nat (int (length xs) + n)) xs else take (nat n) xs)"

definition ljust :: "bytes \<Rightarrow> int \<Rightarrow> byte \<Rightarrow> bytes" where
  "ljust xs n fill = xs @ replicate (nat n - length xs) fill"

fun bplus_serialize_key :: "int \<Rightarrow> pykey \<Rightarrow> error + bytes" where
  "bplus_serialize_key key_size (KInt k) = pack_le 8 k"
| "bplus_serialize_key key_size (KStr s) =
     (case encode_utf8 s of
        Inl e \<Rightarrow> Inl e
      | Inr encoded \<Rightarrow>
          if int (length encoded) > key_size then Inr (py_slice_to encoded key_size)
          else Inr (ljust encoded key_size 0))"
| "bplus_serialize_key key_size (KBytes b) = Inr b"
| "bplus_serialize_key key_size (KOther s) = Inl TypeError"

section \<open>Pages\<close>

datatype PageType = FREE | DATA | INDEX | CATALOG | FREE_SPACE_MAP

fun page_type_value :: "PageType \<Rightarrow> int" where
  "page_type_value FREE = 0"
| "page_type_value DATA = 1"
| "page_type_value INDEX = 2"
| "page_type_value CATALOG = 3"
| "page_type_value FREE_SPACE_MAP = 4"

text \<open>The enum constructor \<open>PageType(v)\<close> raises \<open>ValueError\<close> on any other value.\<close>

definition page_type_of :: "int \<Rightarrow> error + PageType" where
  "page_type_of v =
     (if v = 0 then Inr FREE else if v = 1 then Inr DATA else if v = 2 then Inr INDEX
      else if v = 3 then Inr CATALOG else if v = 4 then Inr FREE_SPACE_MAP
      else Inl ValueError)"

definition PAGE_SIZE :: nat where "PAGE_SIZE = 4096"
definition HEADER_SIZE :: nat where "HEADER_SIZE = 8 + 1 + 4 + 2 + 2 + 8 + 4"
definition DATA_SIZE :: nat where "DATA_SIZE = PAGE_SIZE - HEADER_SIZE"

record Page =
  page_id :: int
  page_type :: PageType
  table_id :: int
  free_space_start :: int
  free_space_end :: int
  lsn :: int
  checksum :: int
  data :: bytes
  dirty :: bool

text \<open>\<open>Page.__init__\<close>.\<close>

definition new_page :: "int \<Rightarrow> PageType \<Rightarrow> int \<Rightarrow> Page" where
  "new_page pid ptype tid =
     \<lparr>page_id = pid, page_type = ptype, table_id = tid,
      free_space_start = int HEADER_SIZE, free_space_end = int PAGE_SIZE,
      lsn = 0, checksum = 0, data = replicate DATA_SIZE 0, dirty = False\<rparr>"

text \<open>
  \<open>struct.pack\<close> with a little-endian format without padding: the fields are given as
  pairs of a width in bytes and a value, and the first value out of range raises.
\<close>

fun pack_fields :: "(nat \<times> int) list \<Rightarrow> error + bytes" where
  "pack_fields [] = Inr []"
| "pack_fields ((n, v) # fs) =
     (case pack_le n v of
        Inl e \<Rightarrow> Inl e
      | Inr b \<Rightarrow> (case pack_fields fs of Inl e \<Rightarrow> Inl e | Inr bs \<Rightarrow> Inr (b @ bs)))"

text \<open>\<open>struct.unpack\<close> of one little-endian unsigned field.\<close>

fun le_int :: "bytes \<Rightarrow> int" where
  "le_int [] = 0"
| "le_int (b # bs) = uint b + 256 * le_int bs"

text \<open>The header packed with \<open>HEADER_FORMAT = "<Q B I H H Q I"\<close>.\<close>

definition pack_header :: "Page \<Rightarrow> error + bytes" where
  "pack_header p =
     pack_fields [(8, page_id p), (1, page_type_value (page_type p)), (4, table_id p),
                  (2, free_space_start p), (2, free_space_end p), (8, lsn p),
                  (4, checksum p)]"

text \<open>
  \<open>Page._calculate_checksum\<close>: the loop takes the data four bytes at a time, pads a
  short last chunk with zero bytes and folds the chunks, read as little-endian 32-bit
  numbers, with exclusive or.
\<close>

fun checksum_loop :: "bytes \<Rightarrow> int \<Rightarrow> int" where
  "checksum_loop (a # b # c # d # rest) acc = checksum_loop rest (acc XOR le_int [a, b, c, d])"
| "checksum_loop [] acc = acc"
| "checksum_loop chunk acc = acc XOR le_int (chunk @ replicate (4 - length chunk) 0)"

definition calculate_checksum :: "bytes \<Rightarrow> int" where
  "calculate_checksum d =
     (if length d < 4 then 0 else checksum_loop d 0 AND 0xFFFFFFFF)"

text \<open>
  \<open>Page.serialize\<close>.  The first header is packed with the checksum the page holds at
  that moment; the call stores the new checksum in the page, so the page is returned with
  the bytes.
\<close>

definition serialize :: "Page \<Rightarrow> error + (bytes \<times> Page)" where
  "serialize p =
     (case pack_header p of
        Inl e \<Rightarrow> Inl e
      | Inr header \<Rightarrow>
          let p' = p\<lparr>checksum := calculate_checksum (header @ data p)\<rparr>
          in (case pack_header p' of
                Inl e \<Rightarrow> Inl e
              | Inr header' \<Rightarrow> Inr (header' @ data p', p')))"

text \<open>\<open>Page.deserialize\<close>; \<open>py_slice xs i j\<close> is the slice \<open>xs[i:j]\<close> for
  non-negative bounds.\<close>

definition py_slice :: "'a list \<Rightarrow> nat \<Rightarrow> nat \<Rightarrow> 'a list" where
  "py_slice xs i j = take (j - i) (drop i xs)"

definition deserialize :: "int \<Rightarrow> bytes \<Rightarrow> error + Page" where
  "deserialize pid raw_data =
     (if length raw_data \<noteq> PAGE_SIZE then Inl ValueError
      else
        let header = py_slice raw_data 0 HEADER_SIZE;
            page_id_val = le_int (py_slice header 0 8);
            page_type_val = le_int (py_slice header 8 9);
            table_id_val = le_int (py_slice header 9 13);
            fss = le_int (py_slice header 13 15);
            fse = le_int (py_slice header 15 17);
            lsn_val = le_int (py_slice header 17 25);
            checksum_val = le_int (py_slice header 25 29)
        in (case page_type_of page_type_val of
              Inl e \<Rightarrow> Inl e
            | Inr ptype \<Rightarrow>
                Inr ((new_page page_id_val ptype table_id_val)
                       \<lparr>free_space_start := fss, free_space_end := fse, lsn := lsn_val,
                        checksum := checksum_val,
                        data := py_slice raw_data HEADER_SIZE PAGE_SIZE\<rparr>)))"

text \<open>\<open>Page.allocate_space\<close>: the result and the page after the call.\<close>

definition allocate_space :: "Page \<Rightarrow> int \<Rightarrow> int option \<times> Page" where
  "allocate_space p sz =
     (if free_space_start p + sz \<le> free_space_end p
      then (Some (free_space_start p),
            p\<lparr>free_space_start := free_space_start p + sz, dirty := True\<rparr>)
      else (None, p))"

text \<open>\<open>Page.write_data\<close>; the slice assignment replaces \<open>len(data)\<close> bytes of
  the data region.\<close>

definition write_data :: "Page \<Rightarrow> int \<Rightarrow> bytes \<Rightarrow> error + Page" where
  "write_data p offset d =
     (if offset < int HEADER_SIZE \<or> offset + int (length d) > int PAGE_SIZE then Inl ValueError
      else
        let data_offset = nat (offset - int HEADER_SIZE)
        in Inr (p\<lparr>data := take data_offset (data p) @ d
                           @ drop (data_offset + length d) (data p),
                   dirty := True\<rparr>))"

text \<open>
  The page states that \<open>struct.pack\<close> accepts: every header field fits its format
  field and the data region has its fixed size.
\<close>

definition valid_page :: "Page \<Rightarrow> bool" where
  "valid_page p \<longleftrightarrow>
     0 \<le> page_id p \<and> page_id p < 2 ^ 64 \<and> 0 \<le> table_id p \<and> table_id p < 2 ^ 32
     \<and> 0 \<le> free_space_start p \<and> free_space_start p < 2 ^ 16
     \<and> 0 \<le> free_space_end p \<and> free_space_end p < 2 ^ 16
     \<and> 0 \<le> lsn p \<and> lsn p < 2 ^ 64 \<and> 0 \<le> checksum p \<and> checksum p < 2 ^ 32
     \<and> length (data p) = DATA_SIZE"

text \<open>The checksum field of a serialized page, read back from its bytes 25 to 28.\<close>

definition stored_checksum :: "bytes \<Rightarrow> int" where
  "stored_checksum bs = le_int (py_slice bs 25 29)"

text \<open>
  The checksum as the specification words it: computed over the header with the checksum
  field zeroed, concatenated with the data region.
\<close>

definition zeroed_checksum :: "Page \<Rightarrow> error + int" where
  "zeroed_checksum p =
     (case pack_header (p\<lparr>checksum := 0\<rparr>) of
        Inl e \<Rightarrow> Inl e
      | Inr header \<Rightarrow> Inr (calculate_checksum (header @ data p)))"

section \<open>The storage manager\<close>

subsection \<open>The database header\<close>

record DatabaseHeader =
  magic :: int
  page_size :: int
  db_size :: int
  catalog_root :: int
  free_list_head :: int
  last_transaction_id :: int
  header_checksum :: int

definition MAGIC_NUMBER :: int where "MAGIC_NUMBER = 0x504D4442"

text \<open>\<open>DatabaseHeader.__init__\<close>.\<close>

definition new_header :: DatabaseHeader where
  "new_header =
     \<lparr>magic = MAGIC_NUMBER, page_size = int PAGE_SIZE, db_size = 0, catalog_root = 0,
      free_list_head = 0, last_transaction_id = 0, header_checksum = 0\<rparr>"

text \<open>\<open>DatabaseHeader.serialize\<close>: the format \<open>"<I I Q Q Q Q I"\<close>, padded with
  zero bytes to 4096 bytes.\<close>

definition header_serialize :: "DatabaseHeader \<Rightarrow> error + bytes" where
  "header_serialize h =
     (case pack_fields [(4, magic h), (4, page_size h), (8, db_size h), (8, catalog_root h),
                        (8, free_list_head h), (8, last_transaction_id h),
                        (4, header_checksum h)] of
        Inl e \<Rightarrow> Inl e
      | Inr b \<Rightarrow> Inr (ljust b 4096 0))"

text \<open>\<open>DatabaseHeader.deserialize\<close>.\<close>

definition header_deserialize :: "bytes \<Rightarrow> error + DatabaseHeader" where
  "header_deserialize d =
     (if length d < 44 then Inl ValueError
      else
        let raw = py_slice d 0 44;
            magic_val = le_int (py_slice raw 0 4)
        in if magic_val \<noteq> MAGIC_NUMBER then Inl ValueError
           else Inr \<lparr>magic = magic_val, page_size = le_int (py_slice raw 4 8),
                     db_size = le_int (py_slice raw 8 16),
                     catalog_root = le_int (py_slice raw 16 24),
                     free_list_head = le_int (py_slice raw 24 32),
                     last_transaction_id = le_int (py_slice raw 32 40),
                     header_checksum = le_int (py_slice raw 40 44)\<rparr>)"

subsection \<open>Files\<close>

text \<open>
  A file is its content; an open handle is the number of the file and a position.
  Writing at a position beyond the end fills the gap with zero bytes (writing nothing
  changes nothing); reading returns
  the bytes that are there, at most as many as asked for.  A path names a file by its
  number, so that a handle opened before the path was unlinked still reads and writes
  the old file.
\<close>

definition file_write :: "bytes \<Rightarrow> nat \<Rightarrow> bytes \<Rightarrow> bytes" where
  "file_write content pos bs =
     (if bs = [] then content
      else
        let c = content @ replicate (pos - length content) 0
        in take pos c @ bs @ drop (pos + length bs) c)"

definition file_read :: "bytes \<Rightarrow> nat \<Rightarrow> nat \<Rightarrow> bytes" where
  "file_read content pos n = take n (drop pos content)"

text \<open>
  The file system keeps files of at most \<open>lim\<close> bytes, and a file offset is a signed
  64-bit number, so no file is larger than \<open>2^63 - 1\<close> bytes.  \<open>seek\<close> raises
  \<open>ValueError\<close> for an offset that is no signed 64-bit number, and \<open>OSError\<close> for
  a negative offset and for an offset beyond the largest file.  A \<open>write\<close> that
  would end beyond the largest file raises \<open>OSError\<close>.  A disk that is full before
  that size is reached is not modelled.
\<close>

definition file_limit :: "nat \<Rightarrow> nat" where
  "file_limit lim = min lim (2 ^ 63 - 1)"

definition file_seek :: "nat \<Rightarrow> int \<Rightarrow> error + nat" where
  "file_seek lim offset =
     (if offset < - (2 ^ 63) \<or> offset \<ge> 2 ^ 63 then Inl ValueError
      else if offset < 0 \<or> nat offset > file_limit lim then Inl OSError
      else Inr (nat offset))"

definition file_write_at :: "nat \<Rightarrow> bytes \<Rightarrow> nat \<Rightarrow> bytes \<Rightarrow> error + bytes" where
  "file_write_at lim content pos bs =
     (if bs \<noteq> [] \<and> pos + length bs > file_limit lim then Inl OSError
      else Inr (file_write content pos bs))"

record StorageManager =
  fs_limit :: nat
  inodes :: "nat \<Rightarrow> bytes"
  next_inode :: nat
  path_inode :: "nat option"
  sm_file :: "(nat \<times> nat) option"
  header :: DatabaseHeader
  is_open :: bool

text \<open>\<open>StorageManager.__init__\<close>, on a file system given by the size of its largest
  file, the contents of its files, the next unused file number and what \<open>db_path\<close>
  names.\<close>

definition new_storage_manager ::
    "nat \<Rightarrow> (nat \<Rightarrow> bytes) \<Rightarrow> nat \<Rightarrow> nat option \<Rightarrow> StorageManager" where
  "new_storage_manager lim fs nxt path =
     \<lparr>fs_limit = lim, inodes = fs, next_inode = nxt, path_inode = path, sm_file = None,
      header = new_header, is_open = False\<rparr>"

text \<open>
  The loops \<open>for page_id in range(...): f.write(Page(page_id, FREE).serialize())\<close> of
  \<open>create_database\<close> and \<open>_extend_file\<close>: the pages are written one after the other
  from the position of the handle.
\<close>

fun write_free_pages ::
    "nat \<Rightarrow> bytes \<Rightarrow> nat \<Rightarrow> int list \<Rightarrow> error + (bytes \<times> nat)" where
  "write_free_pages lim content pos [] = Inr (content, pos)"
| "write_free_pages lim content pos (pid # pids) =
     (case serialize (new_page pid FREE 0) of
        Inl e \<Rightarrow> Inl e
      | Inr (bs, p) \<Rightarrow>
          (case file_write_at lim content pos bs of
             Inl e \<Rightarrow> Inl e
           | Inr content' \<Rightarrow> write_free_pages lim content' (pos + length bs) pids))"

text \<open>
  \<open>StorageManager.create_database\<close>.  The file is created empty under a new number,
  written from position 0 and closed again; the manager's own handle is not touched.
\<close>

definition create_database :: "StorageManager \<Rightarrow> bool \<Rightarrow> error + StorageManager" where
  "create_database sm overwrite =
     (if path_inode sm \<noteq> None \<and> \<not> overwrite then Inl FileExistsError
      else
        let initial_pages = 10;
            f = next_inode sm;
            hdr = (header sm)\<lparr>db_size := initial_pages\<rparr>
        in (case header_serialize hdr of
              Inl e \<Rightarrow> Inl e
            | Inr hb \<Rightarrow>
                (case file_write_at (fs_limit sm) [] 0 hb of
                   Inl e \<Rightarrow> Inl e
                 | Inr content0 \<Rightarrow>
                     (case write_free_pages (fs_limit sm) content0 (length hb)
                             [1..initial_pages - 1] of
                        Inl e \<Rightarrow> Inl e
                      | Inr (content, pos) \<Rightarrow>
                          Inr (sm\<lparr>inodes := (inodes sm)(f := content), next_inode := Suc f,
                                   path_inode := Some f, header := hdr\<rparr>)))))"

text \<open>\<open>StorageManager.open\<close>.  The \<open>seek(0)\<close> before the header is read never
  raises.\<close>

definition sm_open :: "StorageManager \<Rightarrow> error + StorageManager" where
  "sm_open sm =
     (case path_inode sm of
        None \<Rightarrow> Inl FileNotFoundError
      | Some f \<Rightarrow>
          let header_data = file_read (inodes sm f) 0 4096
          in (case header_deserialize header_data of
                Inl e \<Rightarrow> Inl e
              | Inr h \<Rightarrow>
                  if page_size h \<noteq> int PAGE_SIZE then Inl ValueError
                  else Inr (sm\<lparr>sm_file := Some (f, length header_data), header := h,
                               is_open := True\<rparr>)))"

text \<open>\<open>StorageManager.close\<close>.\<close>

definition sm_close :: "StorageManager \<Rightarrow> StorageManager" where
  "sm_close sm = (if sm_file sm \<noteq> None then sm\<lparr>sm_file := None, is_open := False\<rparr> else sm)"

text \<open>
  \<open>StorageManager.read_page\<close>.  The call \<open>self.file.seek\<close> on a handle that is
  \<open>None\<close> raises \<open>AttributeError\<close> (no operation leaves \<open>is_open\<close> set
  without a handle).
\<close>

definition read_page :: "StorageManager \<Rightarrow> int \<Rightarrow> error + (Page \<times> StorageManager)" where
  "read_page sm pid =
     (if \<not> is_open sm then Inl RuntimeError
      else if pid \<ge> db_size (header sm) then Inl ValueError
      else
        (case sm_file sm of
           None \<Rightarrow> Inl AttributeError
         | Some (f, pos) \<Rightarrow>
             let offset = pid * int PAGE_SIZE
             in (case file_seek (fs_limit sm) offset of
                   Inl e \<Rightarrow> Inl e
                 | Inr pos' \<Rightarrow>
                     let page_data = file_read (inodes sm f) pos' PAGE_SIZE
                     in if length page_data \<noteq> PAGE_SIZE then Inl ValueError
                        else (case deserialize pid page_data of
                                Inl e \<Rightarrow> Inl e
                              | Inr p \<Rightarrow>
                                  Inr (p, sm\<lparr>sm_file := Some (f, pos' + PAGE_SIZE)\<rparr>)))))"

text \<open>\<open>StorageManager._extend_file\<close>.\<close>

definition extend_file :: "StorageManager \<Rightarrow> int \<Rightarrow> error + StorageManager" where
  "extend_file sm new_size =
     (if new_size \<le> db_size (header sm) then Inr sm
      else
        (case sm_file sm of
           None \<Rightarrow> Inl AttributeError
         | Some (f, pos) \<Rightarrow>
             let old_size = db_size (header sm)
             in (case file_seek (fs_limit sm) (old_size * int PAGE_SIZE) of
                   Inl e \<Rightarrow> Inl e
                 | Inr pos0 \<Rightarrow>
                     (case write_free_pages (fs_limit sm) (inodes sm f) pos0
                             [old_size..new_size - 1] of
                        Inl e \<Rightarrow> Inl e
                      | Inr (content, pos') \<Rightarrow>
                          let hdr = (header sm)\<lparr>db_size := new_size\<rparr>
                          in (case header_serialize hdr of
                                Inl e \<Rightarrow> Inl e
                              | Inr hb \<Rightarrow>
                                  (case file_write_at (fs_limit sm) content 0 hb of
                                     Inl e \<Rightarrow> Inl e
                                   | Inr content' \<Rightarrow>
                                       Inr (sm\<lparr>inodes := (inodes sm)(f := content'),
                                                sm_file := Some (f, length hb),
                                                header := hdr\<rparr>)))))))"

text \<open>\<open>StorageManager.write_page\<close>: the manager and the page after the call.\<close>

definition write_page :: "StorageManager \<Rightarrow> Page \<Rightarrow> error + (StorageManager \<times> Page)" where
  "write_page sm page =
     (if \<not> is_open sm then Inl RuntimeError
      else
        (case (if page_id page \<ge> db_size (header sm)
               then extend_file sm (page_id page + 1) else Inr sm) of
           Inl e \<Rightarrow> Inl e
         | Inr sm1 \<Rightarrow>
             (case sm_file sm1 of
                None \<Rightarrow> Inl AttributeError
              | Some (f, pos) \<Rightarrow>
                  let offset = page_id page * int PAGE_SIZE
                  in (case file_seek (fs_limit sm1) offset of
                        Inl e \<Rightarrow> Inl e
                      | Inr pos' \<Rightarrow>
                          (case serialize page of
                             Inl e \<Rightarrow> Inl e
                           | Inr (bs, page') \<Rightarrow>
                               (case file_write_at (fs_limit sm1) (inodes sm1 f) pos' bs of
                                  Inl e \<Rightarrow> Inl e
                                | Inr content' \<Rightarrow>
                                    Inr (sm1\<lparr>inodes := (inodes sm1)(f := content'),
                                             sm_file := Some (f, pos' + length bs)\<rparr>,
                                         page'\<lparr>dirty := False\<rparr>)))))))"

text \<open>\<open>StorageManager.allocate_page\<close>.\<close>

definition allocate_page ::
    "StorageManager \<Rightarrow> PageType \<Rightarrow> int \<Rightarrow> error + (StorageManager \<times> Page)" where
  "allocate_page sm ptype tid =
     (let new_page_id = db_size (header sm)
      in (case extend_file sm (new_page_id + 1) of
            Inl e \<Rightarrow> Inl e
          | Inr sm1 \<Rightarrow> write_page sm1 (new_page new_page_id ptype tid)))"

text \<open>The header states that \<open>struct.pack\<close> accepts, \<open>db_size\<close> apart.\<close>

definition valid_header :: "DatabaseHeader \<Rightarrow> bool" where
  "valid_header h \<longleftrightarrow>
     0 \<le> magic h \<and> magic h < 2 ^ 32 \<and> 0 \<le> page_size h \<and> page_size h < 2 ^ 32
     \<and> 0 \<le> catalog_root h \<and> catalog_root h < 2 ^ 64
     \<and> 0 \<le> free_list_head h \<and> free_list_head h < 2 ^ 64
     \<and> 0 \<le> last_transaction_id h \<and> last_transaction_id h < 2 ^ 64
     \<and> 0 \<le> header_checksum h \<and> header_checksum h < 2 ^ 32"

text \<open>
  What holds of a manager after a successful \<open>open\<close>, and after every later
  \<open>read_page\<close> and \<open>write_page\<close>: the handle is there and every header field is
  in the range of its format field.
\<close>

definition opened :: "StorageManager \<Rightarrow> bool" where
  "opened sm \<longleftrightarrow>
     is_open sm \<and> sm_file sm \<noteq> None \<and> valid_header (header sm)
     \<and> 0 \<le> db_size (header sm) \<and> db_size (header sm) < 2 ^ 64"

text \<open>The bytes of a fresh \<open>FREE\<close> page, as the loops above write them.\<close>

definition page_bytes :: "int \<Rightarrow> bytes" where
  "page_bytes pid = fst (projr (serialize (new_page pid FREE 0)))"

text \<open>A file system in which every file is empty.\<close>

definition empty_fs :: "nat \<Rightarrow> bytes" where
  "empty_fs = (\<lambda>f. [])"

section \<open>The B+ tree of \<open>simple_bplus_tree.py\<close>\<close>

text \<open>
  The nodes are mutable objects that refer to each other (\<open>children\<close>, \<open>next_leaf\<close>),
  so the tree is modelled over a store: an address stands for a node object, \<open>heap\<close>
  gives the fields of the object at an address, and a new object takes the address
  \<open>next_addr\<close>.  The field \<open>children\<close> of a leaf is \<open>None\<close> in the source and is
  never read there; it is the empty list here.
\<close>

type_synonym addr = nat

record 'v TreeNode =
  keys :: "bytes list"
  node_values :: "'v list"
  children :: "addr list"
  next_leaf :: "addr option"
  is_leaf :: bool

record 'v SimpleBPlusTree =
  order :: int
  root :: addr
  key_to_value :: "bytes \<Rightarrow> 'v option"
  heap :: "addr \<Rightarrow> 'v TreeNode"
  next_addr :: addr

definition leaf_node :: "bytes list \<Rightarrow> 'v list \<Rightarrow> addr option \<Rightarrow> 'v TreeNode" where
  "leaf_node ks vs nxt =
     \<lparr>keys = ks, node_values = vs, children = [], next_leaf = nxt, is_leaf = True\<rparr>"

definition internal_node :: "bytes list \<Rightarrow> addr list \<Rightarrow> 'v TreeNode" where
  "internal_node ks cs =
     \<lparr>keys = ks, node_values = [], children = cs, next_leaf = None, is_leaf = False\<rparr>"

text \<open>\<open>SimpleBPlusTree.__init__\<close>: the root is an empty leaf.\<close>

definition new_tree :: "int \<Rightarrow> 'v SimpleBPlusTree" where
  "new_tree ord =
     \<lparr>order = ord, root = 0, key_to_value = (\<lambda>k. None),
      heap = (\<lambda>a. leaf_node [] [] None), next_addr = 1\<rparr>"

subsection \<open>Descent\<close>

text \<open>
  The loop \<open>while idx < len(node.keys) and key_bytes >= node.keys[idx]: idx += 1\<close>
  of \<open>_find_leaf\<close>.
\<close>

fun child_index :: "bytes list \<Rightarrow> bytes \<Rightarrow> nat" where
  "child_index [] kb = 0"
| "child_index (k # ks) kb = (if kb \<ge> k then Suc (child_index ks kb) else 0)"

text \<open>
  \<open>_find_leaf\<close>.  The result \<open>None\<close> of this and of the following functions stands
  for a call that returns nothing: it raises (\<open>IndexError\<close> here) or it does not end.
\<close>

partial_function (option) find_leaf ::
    "(addr \<Rightarrow> 'v TreeNode) \<Rightarrow> addr \<Rightarrow> bytes \<Rightarrow> addr option" where
  "find_leaf h node kb =
     (if is_leaf (h node) then Some node
      else
        let idx = child_index (keys (h node)) kb
        in if idx < length (children (h node))
           then find_leaf h (children (h node) ! idx) kb
           else None)"

declare find_leaf.simps [code]

subsection \<open>Insertion into a leaf\<close>

text \<open>The loop \<open>while idx < len(keys) and keys[idx] < key: idx += 1\<close>.\<close>

fun insert_index :: "bytes list \<Rightarrow> bytes \<Rightarrow> nat" where
  "insert_index [] kb = 0"
| "insert_index (k # ks) kb = (if k < kb then Suc (insert_index ks kb) else 0)"

text \<open>\<open>list.insert(i, x)\<close> and \<open>list.pop(i)\<close> for \<open>i \<ge> 0\<close>.\<close>

definition list_insert :: "nat \<Rightarrow> 'a \<Rightarrow> 'a list \<Rightarrow> 'a list" where
  "list_insert i x xs = take i xs @ x # drop i xs"

definition list_pop :: "nat \<Rightarrow> 'a list \<Rightarrow> 'a list" where
  "list_pop i xs = take i xs @ drop (Suc i) xs"

definition insert_into_leaf ::
    "'v SimpleBPlusTree \<Rightarrow> addr \<Rightarrow> bytes \<Rightarrow> 'v \<Rightarrow> 'v SimpleBPlusTree" where
  "insert_into_leaf t leaf key v =
     (let n = heap t leaf;
          idx = insert_index (keys n) key
      in t\<lparr>heap := (heap t)(leaf :=
              n\<lparr>keys := list_insert idx key (keys n),
                node_values := list_insert idx v (node_values n)\<rparr>)\<rparr>)"

subsection \<open>Finding the parent\<close>

text \<open>
  \<open>_find_parent\<close>: the loop over the children returns the first parent found.
  The outer \<open>option\<close> is as for \<open>find_leaf\<close>, the inner one is the \<open>Optional\<close>
  of the source.

  The test \<open>target in root.children\<close> is modelled as a test on the node objects,
  which are the addresses here.  In the source the test holds of a child that is the
  target or is equal to it, and \<open>==\<close> on the dataclass \<open>TreeNode\<close> compares the
  fields \<open>keys\<close>, \<open>values\<close>, \<open>children\<close>, \<open>next_leaf\<close>, \<open>is_leaf\<close>
  in this order, following \<open>next_leaf\<close> and \<open>children\<close> into the nodes they refer
  to.  The two tests agree whenever no other node has both the keys of the target and as
  many values.  The target is always a node that was just cut, so it has keys; in a tree
  without duplicate keys no other leaf has one of these keys, no other internal node has
  one of these separators, and a leaf with keys has values while an internal node has
  none.  In a tree with duplicate keys several leaves can have the same keys and values;
  there the source compares further fields, and on a long run of such leaves the
  comparison along \<open>next_leaf\<close> exceeds the recursion limit of the interpreter.  This
  is not modelled; the results below on trees with duplicate keys are on inputs where
  the leaves that are compared differ in their values, so that the two tests agree.
\<close>

fun first_parent :: "(addr \<Rightarrow> addr option option) \<Rightarrow> addr list \<Rightarrow> addr option option" where
  "first_parent f [] = Some None"
| "first_parent f (child # rest) =
     Option.bind (f child) (\<lambda>p. case p of Some q \<Rightarrow> Some (Some q) | None \<Rightarrow> first_parent f rest)"

lemma first_parent_mono [partial_function_mono]:
  assumes "\<And>c. mono_option (\<lambda>f. F f c)"
  shows "mono_option (\<lambda>f. first_parent (F f) cs)"
proof (induction cs)
  case Nil
  show ?case by (simp add: option.const_mono)
next
  case (Cons c cs)
  have "mono_option (\<lambda>f. case y of Some q \<Rightarrow> Some (Some q)
                                | None \<Rightarrow> first_parent (F f) cs)" for y :: "addr option"
    by (cases y) (simp_all add: Cons option.const_mono)
  then show ?case
    unfolding first_parent.simps by (intro bind_mono assms)
qed

partial_function (option) find_parent ::
    "(addr \<Rightarrow> 'v TreeNode) \<Rightarrow> addr \<Rightarrow> addr \<Rightarrow> addr option option" where
  "find_parent h r target =
     (if is_leaf (h r) then Some None
      else if target \<in> set (children (h r)) then Some (Some r)
      else first_parent (\<lambda>child. find_parent h child target) (children (h r)))"

declare find_parent.simps [code]

subsection \<open>Splits\<close>

text \<open>The new root of \<open>_split_leaf\<close> and \<open>_split_internal\<close>.\<close>

definition make_root ::
    "'v SimpleBPlusTree \<Rightarrow> bytes \<Rightarrow> addr \<Rightarrow> addr \<Rightarrow> 'v SimpleBPlusTree" where
  "make_root t promote_key left right =
     (let new_root = next_addr t
      in t\<lparr>heap := (heap t)(new_root := internal_node [promote_key] [left, right]),
           root := new_root, next_addr := Suc new_root\<rparr>)"

text \<open>The first lines of \<open>_insert_into_internal\<close>: the key and the right node are put
  into the parent.\<close>

definition put_into_internal ::
    "'v SimpleBPlusTree \<Rightarrow> addr \<Rightarrow> bytes \<Rightarrow> addr \<Rightarrow> 'v SimpleBPlusTree" where
  "put_into_internal t parent key right =
     (let p = heap t parent;
          idx = insert_index (keys p) key
      in t\<lparr>heap := (heap t)(parent :=
              p\<lparr>keys := list_insert idx key (keys p),
                children := list_insert (idx + 1) right (children p)\<rparr>)\<rparr>)"

text \<open>
  The first lines of \<open>_split_internal\<close>: the node is cut in two around the promoted
  key.  The result is the tree, the promoted key and the new node; \<open>node.keys[mid]\<close>
  raises on a node without keys.
\<close>

definition cut_internal ::
    "'v SimpleBPlusTree \<Rightarrow> addr \<Rightarrow> ('v SimpleBPlusTree \<times> bytes \<times> addr) option" where
  "cut_internal t node =
     (let n = heap t node;
          mid = length (keys n) div 2
      in if mid \<ge> length (keys n) then None
         else
           let promote_key = keys n ! mid;
               new_node = next_addr t
           in Some (t\<lparr>heap := (heap t)
                        (new_node := internal_node (drop (mid + 1) (keys n))
                                                  (drop (mid + 1) (children n)),
                         node := n\<lparr>keys := take mid (keys n),
                                   children := take (mid + 1) (children n)\<rparr>),
                      next_addr := Suc new_node\<rparr>,
                    promote_key, new_node))"

text \<open>
  \<open>_insert_into_internal\<close> and \<open>_split_internal\<close> call each other; the body of
  \<open>_split_internal\<close> stands in the place of its call here, and \<open>split_internal\<close>
  below is that body by itself.
\<close>

partial_function (option) insert_into_internal ::
    "'v SimpleBPlusTree \<Rightarrow> addr \<Rightarrow> bytes \<Rightarrow> addr \<Rightarrow> addr \<Rightarrow> 'v SimpleBPlusTree option" where
  "insert_into_internal t parent key left right =
     (let t1 = put_into_internal t parent key right
      in if int (length (keys (heap t1 parent))) \<ge> order t1
         then
           (case cut_internal t1 parent of
              None \<Rightarrow> None
            | Some (t2, promote_key, new_node) \<Rightarrow>
                (case find_parent (heap t2) (root t2) parent of
                   None \<Rightarrow> None
                 | Some None \<Rightarrow> Some (make_root t2 promote_key parent new_node)
                 | Some (Some p) \<Rightarrow> insert_into_internal t2 p promote_key parent new_node))
         else Some t1)"

declare insert_into_internal.simps [code]

definition split_internal :: "'v SimpleBPlusTree \<Rightarrow> addr \<Rightarrow> 'v SimpleBPlusTree option" where
  "split_internal t node =
     (case cut_internal t node of
        None \<Rightarrow> None
      | Some (t2, promote_key, new_node) \<Rightarrow>
          (case find_parent (heap t2) (root t2) node of
             None \<Rightarrow> None
           | Some None \<Rightarrow> Some (make_root t2 promote_key node new_node)
           | Some (Some p) \<Rightarrow> insert_into_internal t2 p promote_key node new_node))"

text \<open>\<open>_split_leaf\<close>.\<close>

definition split_leaf :: "'v SimpleBPlusTree \<Rightarrow> addr \<Rightarrow> 'v SimpleBPlusTree option" where
  "split_leaf t leaf =
     (let n = heap t leaf;
          mid = length (keys n) div 2
      in if mid \<ge> length (keys n) then None
         else
           let promote_key = keys n ! mid;
               new_leaf = next_addr t;
               t1 = t\<lparr>heap := (heap t)
                        (new_leaf := leaf_node (drop mid (keys n)) (drop mid (node_values n))
                                               (next_leaf n),
                         leaf := n\<lparr>keys := take mid (keys n),
                                   node_values := take mid (node_values n),
                                   next_leaf := Some new_leaf\<rparr>),
                      next_addr := Suc new_leaf\<rparr>
           in (case find_parent (heap t1) (root t1) leaf of
                 None \<Rightarrow> None
               | Some None \<Rightarrow> Some (make_root t1 promote_key leaf new_leaf)
               | Some (Some parent) \<Rightarrow>
                   insert_into_internal t1 parent promote_key leaf new_leaf))"

subsection \<open>The operations\<close>

text \<open>\<open>SimpleBPlusTree.insert\<close>, first on the serialized key, then on the key.\<close>

definition insert_bytes ::
    "'v SimpleBPlusTree \<Rightarrow> bytes \<Rightarrow> 'v \<Rightarrow> 'v SimpleBPlusTree option" where
  "insert_bytes t key_bytes v =
     (let t1 = t\<lparr>key_to_value := (key_to_value t)(key_bytes := Some v)\<rparr>
      in (case find_leaf (heap t1) (root t1) key_bytes of
            None \<Rightarrow> None
          | Some leaf \<Rightarrow>
              let t2 = insert_into_leaf t1 leaf key_bytes v
              in if int (length (keys (heap t2 leaf))) \<ge> order t2
                 then split_leaf t2 leaf
                 else Some t2))"

definition insert_key ::
    "'v SimpleBPlusTree \<Rightarrow> pykey \<Rightarrow> 'v \<Rightarrow> 'v SimpleBPlusTree option" where
  "insert_key t key v =
     (case serialize_key key of Inl e \<Rightarrow> None | Inr key_bytes \<Rightarrow> insert_bytes t key_bytes v)"

text \<open>
  \<open>SimpleBPlusTree.search\<close>: the index of the first key of the leaf equal to the
  searched one, and the value at that index.
\<close>

fun first_match :: "bytes list \<Rightarrow> bytes \<Rightarrow> nat option" where
  "first_match [] kb = None"
| "first_match (k # ks) kb =
     (if k = kb then Some 0 else map_option Suc (first_match ks kb))"

definition search_bytes :: "'v SimpleBPlusTree \<Rightarrow> bytes \<Rightarrow> 'v option option" where
  "search_bytes t key_bytes =
     (case find_leaf (heap t) (root t) key_bytes of
        None \<Rightarrow> None
      | Some leaf \<Rightarrow>
          (case first_match (keys (heap t leaf)) key_bytes of
             None \<Rightarrow> Some None
           | Some i \<Rightarrow>
               if i < length (node_values (heap t leaf))
               then Some (Some (node_values (heap t leaf) ! i))
               else None))"

definition search :: "'v SimpleBPlusTree \<Rightarrow> pykey \<Rightarrow> 'v option option" where
  "search t key =
     (case serialize_key key of Inl e \<Rightarrow> None | Inr key_bytes \<Rightarrow> search_bytes t key_bytes)"

text \<open>
  \<open>SimpleBPlusTree.range_search\<close>.  \<open>scan_leaf\<close> is the \<open>for\<close> loop over one
  leaf: it returns the results so far and whether the function returned inside the loop.
\<close>

fun scan_leaf ::
    "bytes list \<Rightarrow> 'v list \<Rightarrow> nat \<Rightarrow> bytes \<Rightarrow> bytes \<Rightarrow> 'v list \<Rightarrow> ('v list \<times> bool) option" where
  "scan_leaf [] vs i start_bytes end_bytes res = Some (res, False)"
| "scan_leaf (k # ks) vs i start_bytes end_bytes res =
     (if start_bytes \<le> k \<and> k < end_bytes
      then (if i < length vs
            then scan_leaf ks vs (Suc i) start_bytes end_bytes (res @ [vs ! i])
            else None)
      else if k \<ge> end_bytes then Some (res, True)
      else scan_leaf ks vs (Suc i) start_bytes end_bytes res)"

partial_function (option) range_loop ::
    "(addr \<Rightarrow> 'v TreeNode) \<Rightarrow> addr option \<Rightarrow> bytes \<Rightarrow> bytes \<Rightarrow> 'v list \<Rightarrow> 'v list option" where
  "range_loop h leaf start_bytes end_bytes res =
     (case leaf of
        None \<Rightarrow> Some res
      | Some a \<Rightarrow>
          (case scan_leaf (keys (h a)) (node_values (h a)) 0 start_bytes end_bytes res of
             None \<Rightarrow> None
           | Some (res', returned) \<Rightarrow>
               if returned then Some res'
               else range_loop h (next_leaf (h a)) start_bytes end_bytes res'))"

declare range_loop.simps [code]

definition range_search_bytes :: "'v SimpleBPlusTree \<Rightarrow> bytes \<Rightarrow> bytes \<Rightarrow> 'v list option" where
  "range_search_bytes t start_bytes end_bytes =
     (case find_leaf (heap t) (root t) start_bytes of
        None \<Rightarrow> None
      | Some leaf \<Rightarrow> range_loop (heap t) (Some leaf) start_bytes end_bytes [])"

definition range_search :: "'v SimpleBPlusTree \<Rightarrow> pykey \<Rightarrow> pykey \<Rightarrow> 'v list option" where
  "range_search t start_key end_key =
     (case serialize_key start_key of
        Inl e \<Rightarrow> None
      | Inr start_bytes \<Rightarrow>
          (case serialize_key end_key of
             Inl e \<Rightarrow> None
           | Inr end_bytes \<Rightarrow> range_search_bytes t start_bytes end_bytes))"

text \<open>\<open>SimpleBPlusTree.delete\<close>: the tree after the call and the returned flag.\<close>

definition delete_bytes ::
    "'v SimpleBPlusTree \<Rightarrow> bytes \<Rightarrow> ('v SimpleBPlusTree \<times> bool) option" where
  "delete_bytes t key_bytes =
     (let found_in_map = (key_to_value t key_bytes \<noteq> None)
      in if found_in_map
         then
           let t1 = t\<lparr>key_to_value := (key_to_value t)(key_bytes := None)\<rparr>
           in (case find_leaf (heap t1) (root t1) key_bytes of
                 None \<Rightarrow> None
               | Some leaf \<Rightarrow>
                   let n = heap t1 leaf
                   in (case first_match (keys n) key_bytes of
                         None \<Rightarrow> Some (t1, False)
                       | Some i \<Rightarrow>
                           if i < length (node_values n)
                           then Some (t1\<lparr>heap := (heap t1)(leaf :=
                                          n\<lparr>keys := list_pop i (keys n),
                                            node_values := list_pop i (node_values n)\<rparr>)\<rparr>,
                                      True)
                           else None))
         else Some (t, False))"

definition delete :: "'v SimpleBPlusTree \<Rightarrow> pykey \<Rightarrow> ('v SimpleBPlusTree \<times> bool) option" where
  "delete t key =
     (case serialize_key key of Inl e \<Rightarrow> None | Inr key_bytes \<Rightarrow> delete_bytes t key_bytes)"

text \<open>A sequence of \<open>insert\<close> calls, as a client makes them one after another.\<close>

fun insert_all ::
    "'v SimpleBPlusTree \<Rightarrow> (pykey \<times> 'v) list \<Rightarrow> 'v SimpleBPlusTree option" where
  "insert_all t [] = Some t"
| "insert_all t ((key, v) # rest) =
     (case insert_key t key v of None \<Rightarrow> None | Some t' \<Rightarrow> insert_all t' rest)"

section \<open>The invariants of the tree, as the specification states them\<close>

text \<open>The nodes that can be reached from a node through \<open>children\<close>.\<close>

inductive_set nodes_of :: "(addr \<Rightarrow> 'v TreeNode) \<Rightarrow> addr \<Rightarrow> addr set"
  for h :: "addr \<Rightarrow> 'v TreeNode" and r :: addr where
  nodes_root: "r \<in> nodes_of h r"
| nodes_child:
    "a \<in> nodes_of h r \<Longrightarrow> \<not> is_leaf (h a) \<Longrightarrow> c \<in> set (children (h a)) \<Longrightarrow> c \<in> nodes_of h r"

text \<open>
  The invariants of one node: the keys are strictly increasing, there are at most
  \<open>order - 1\<close> of them, a leaf has as many values as keys, an internal node has one
  child more than keys.
\<close>

definition node_inv :: "int \<Rightarrow> 'v TreeNode \<Rightarrow> bool" where
  "node_inv ord n \<longleftrightarrow>
     sorted_wrt (<) (keys n) \<and> int (length (keys n)) \<le> ord - 1
     \<and> (is_leaf n \<longrightarrow> length (node_values n) = length (keys n))
     \<and> (\<not> is_leaf n \<longrightarrow> length (children n) = length (keys n) + 1)"

text \<open>The leftmost leaf below a node: the descent through the first children.\<close>

partial_function (option) leftmost_leaf ::
    "(addr \<Rightarrow> 'v TreeNode) \<Rightarrow> addr \<Rightarrow> addr option" where
  "leftmost_leaf h a =
     (if is_leaf (h a) then Some a
      else (case children (h a) of [] \<Rightarrow> None | c # cs \<Rightarrow> leftmost_leaf h c))"

declare leftmost_leaf.simps [code]

text \<open>
  \<open>is_chain h first ls\<close>: following \<open>next_leaf\<close> from \<open>first\<close> visits the nodes
  \<open>ls\<close>, in this order, and then ends.
\<close>

fun is_chain :: "(addr \<Rightarrow> 'v TreeNode) \<Rightarrow> addr option \<Rightarrow> addr list \<Rightarrow> bool" where
  "is_chain h None ls = (ls = [])"
| "is_chain h (Some a) [] = False"
| "is_chain h (Some a) (b # bs) = (a = b \<and> is_chain h (next_leaf (h a)) bs)"

text \<open>
  The invariants of a tree: every node below the root has the node invariants, and the
  chain of \<open>next_leaf\<close> links from the leftmost leaf visits exactly the leaves of the
  tree, with strictly increasing keys along the whole chain.
\<close>

definition tree_inv :: "'v SimpleBPlusTree \<Rightarrow> bool" where
  "tree_inv t \<longleftrightarrow>
     (\<forall>a \<in> nodes_of (heap t) (root t). node_inv (order t) (heap t a))
     \<and> (\<exists>first ls.
          leftmost_leaf (heap t) (root t) = Some first
          \<and> is_chain (heap t) (Some first) ls
          \<and> set ls = {a \<in> nodes_of (heap t) (root t). is_leaf (heap t a)}
          \<and> sorted_wrt (<) (concat (map (\<lambda>a. keys (heap t a)) ls)))"

text \<open>The keys stored in the leaves of a tree.\<close>

definition stored_keys :: "'v SimpleBPlusTree \<Rightarrow> bytes set" where
  "stored_keys t =
     (\<Union>a \<in> {a \<in> nodes_of (heap t) (root t). is_leaf (heap t a)}. set (keys (heap t a)))"

text \<open>
  The trees that sequences of \<open>insert\<close> and \<open>delete\<close> calls build from a new tree of
  order \<open>ord\<close>, when no \<open>insert\<close> is given a key that \<open>key_to_value\<close> holds at
  that moment.
\<close>

inductive reachable_unique :: "int \<Rightarrow> 'v SimpleBPlusTree \<Rightarrow> bool" for ord :: int where
  reach_new: "reachable_unique ord (new_tree ord)"
| reach_insert:
    "reachable_unique ord t \<Longrightarrow> serialize_key key = Inr kb \<Longrightarrow> key_to_value t kb = None
     \<Longrightarrow> insert_key t key v = Some t' \<Longrightarrow> reachable_unique ord t'"
| reach_delete:
    "reachable_unique ord t \<Longrightarrow> delete t key = Some (t', b) \<Longrightarrow> reachable_unique ord t'"

section \<open>The shape of a tree in the store\<close>

text \<open>
  The invariants are proved over a tree-shaped description of the store: a leaf with its
  address, keys and values, or an internal node with its address, separator keys and
  subtrees.  These definitions are not in the source; they say what the store looks like
  when the tree is well formed.
\<close>

datatype 'v atree = ALeaf addr "bytes list" "'v list" | ANode addr "bytes list" "'v atree list"

text \<open>The address of the top node, all addresses, the addresses of the leaves from left
  to right, and the keys of the leaves from left to right.\<close>

fun taddr :: "'v atree \<Rightarrow> addr" where
  "taddr (ALeaf a ks vs) = a"
| "taddr (ANode a ks ts) = a"

fun addrs :: "'v atree \<Rightarrow> addr list" where
  "addrs (ALeaf a ks vs) = [a]"
| "addrs (ANode a ks ts) = a # concat (map addrs ts)"

fun leaves :: "'v atree \<Rightarrow> addr list" where
  "leaves (ALeaf a ks vs) = [a]"
| "leaves (ANode a ks ts) = concat (map leaves ts)"

fun lkeys :: "'v atree \<Rightarrow> bytes list" where
  "lkeys (ALeaf a ks vs) = ks"
| "lkeys (ANode a ks ts) = concat (map lkeys ts)"

text \<open>The store holds the described tree: every node of the description is at its
  address, with these keys, values and children.\<close>

fun realizes :: "(addr \<Rightarrow> 'v TreeNode) \<Rightarrow> 'v atree \<Rightarrow> bool" where
  "realizes h (ALeaf a ks vs) \<longleftrightarrow> is_leaf (h a) \<and> keys (h a) = ks \<and> node_values (h a) = vs"
| "realizes h (ANode a ks ts) \<longleftrightarrow>
     \<not> is_leaf (h a) \<and> keys (h a) = ks \<and> children (h a) = map taddr ts
     \<and> (\<forall>t \<in> set ts. realizes h t)"

text \<open>Every node has fewer than \<open>n\<close> keys.\<close>

fun small :: "int \<Rightarrow> 'v atree \<Rightarrow> bool" where
  "small n (ALeaf a ks vs) \<longleftrightarrow> int (length ks) < n"
| "small n (ANode a ks ts) \<longleftrightarrow> int (length ks) < n \<and> (\<forall>t \<in> set ts. small n t)"

text \<open>
  The keys of a subtree lie between two bounds that the separators above it give: an
  optional inclusive lower bound and an optional exclusive upper bound, as the descent of
  \<open>_find_leaf\<close> goes right on a key equal to the separator.  \<open>blt lo hi\<close> says that
  the lower bound is below the upper one.
\<close>

definition lo_le :: "bytes option \<Rightarrow> bytes \<Rightarrow> bool" where
  "lo_le lo k = (case lo of None \<Rightarrow> True | Some l \<Rightarrow> l \<le> k)"

definition hi_gt :: "bytes option \<Rightarrow> bytes \<Rightarrow> bool" where
  "hi_gt hi k = (case hi of None \<Rightarrow> True | Some u \<Rightarrow> k < u)"

definition blt :: "bytes option \<Rightarrow> bytes option \<Rightarrow> bool" where
  "blt lo hi = (case lo of None \<Rightarrow> True | Some l \<Rightarrow> hi_gt hi l)"

text \<open>
  \<open>ol P lo hi ks ts\<close>: there is one subtree more than separators, and \<open>P\<close> holds
  of each subtree between its two neighbouring separators, the outer bounds being
  \<open>lo\<close> and \<open>hi\<close>.
\<close>

fun ol :: "(bytes option \<Rightarrow> bytes option \<Rightarrow> 'a \<Rightarrow> bool) \<Rightarrow> bytes option \<Rightarrow> bytes option
             \<Rightarrow> bytes list \<Rightarrow> 'a list \<Rightarrow> bool" where
  "ol P lo hi [] [t] = P lo hi t"
| "ol P lo hi (k # ks) (t # ts) = (P lo (Some k) t \<and> ol P (Some k) hi ks ts)"
| "ol P lo hi ks ts = False"

lemma ol_cong [fundef_cong]:
  assumes "lo = lo'" "hi = hi'" "ks = ks'" "ts = ts'"
    and "\<And>l u t. t \<in> set ts' \<Longrightarrow> P l u t = Q l u t"
  shows "ol P lo hi ks ts = ol Q lo' hi' ks' ts'"
  using assms(5) unfolding assms(1-4)
  by (induction P lo' hi' ks' ts' rule: ol.induct) auto

text \<open>
  The ordered trees between two bounds: the keys of a leaf are strictly increasing,
  lie between the bounds and have one value each; the subtrees of an internal node are
  ordered between its separators.
\<close>

fun ord :: "bytes option \<Rightarrow> bytes option \<Rightarrow> 'v atree \<Rightarrow> bool" where
  "ord lo hi (ALeaf a ks vs) \<longleftrightarrow>
     sorted_wrt (<) ks \<and> (\<forall>k \<in> set ks. lo_le lo k \<and> hi_gt hi k) \<and> length vs = length ks
     \<and> blt lo hi"
| "ord lo hi (ANode a ks ts) \<longleftrightarrow> ol ord lo hi ks ts"

text \<open>The bounds of the child number \<open>i\<close> of a node with the separators \<open>ks\<close>.\<close>

definition lob :: "bytes option \<Rightarrow> bytes list \<Rightarrow> nat \<Rightarrow> bytes option" where
  "lob lo ks i = (if i = 0 then lo else Some (ks ! (i - 1)))"

definition hib :: "bytes option \<Rightarrow> bytes list \<Rightarrow> nat \<Rightarrow> bytes option" where
  "hib hi ks i = (if i < length ks then Some (ks ! i) else hi)"

subsection \<open>A subtree in its context\<close>

text \<open>
  The path from a subtree up to the root: for each node on the path, its address and
  separators and the subtrees to the left and to the right of the path, the node next to
  the subtree first.  \<open>plug fs t\<close> is the whole tree with \<open>t\<close> at the end of the path.
\<close>

type_synonym 'v frame = "addr \<times> bytes list \<times> 'v atree list \<times> 'v atree list"

fun plug :: "'v frame list \<Rightarrow> 'v atree \<Rightarrow> 'v atree" where
  "plug [] t = t"
| "plug ((a, ks, ls, rs) # fs) t = plug fs (ANode a ks (ls @ t # rs))"

fun ctx_addrs :: "'v frame list \<Rightarrow> addr list" where
  "ctx_addrs [] = []"
| "ctx_addrs ((a, ks, ls, rs) # fs) = a # concat (map addrs (ls @ rs)) @ ctx_addrs fs"

fun ctx_realizes :: "(addr \<Rightarrow> 'v TreeNode) \<Rightarrow> 'v frame list \<Rightarrow> addr \<Rightarrow> bool" where
  "ctx_realizes h [] c = True"
| "ctx_realizes h ((a, ks, ls, rs) # fs) c \<longleftrightarrow>
     \<not> is_leaf (h a) \<and> keys (h a) = ks \<and> children (h a) = map taddr ls @ c # map taddr rs
     \<and> (\<forall>t \<in> set (ls @ rs). realizes h t) \<and> ctx_realizes h fs a"

fun ctx_small :: "int \<Rightarrow> 'v frame list \<Rightarrow> bool" where
  "ctx_small n [] = True"
| "ctx_small n ((a, ks, ls, rs) # fs) \<longleftrightarrow>
     int (length ks) < n \<and> (\<forall>t \<in> set (ls @ rs). small n t) \<and> ctx_small n fs"

text \<open>
  \<open>hole_ord glo ghi fs lo hi\<close>: the path is ordered between \<open>glo\<close> and \<open>ghi\<close>
  apart from the subtree at its end, whose bounds are \<open>lo\<close> and \<open>hi\<close>.
\<close>

fun hole_ord ::
    "bytes option \<Rightarrow> bytes option \<Rightarrow> 'v frame list \<Rightarrow> bytes option \<Rightarrow> bytes option \<Rightarrow> bool" where
  "hole_ord glo ghi [] lo hi \<longleftrightarrow> lo = glo \<and> hi = ghi"
| "hole_ord glo ghi ((a, ks, ls, rs) # fs) lo hi \<longleftrightarrow>
     (\<exists>lo' hi' c. hole_ord glo ghi fs lo' hi' \<and> ol ord lo' hi' ks (ls @ c # rs)
        \<and> lo = lob lo' ks (length ls) \<and> hi = hib hi' ks (length ls))"

subsection \<open>The steps of a split\<close>

text \<open>
  The parts of \<open>_insert_into_internal\<close>, \<open>_split_internal\<close> and \<open>_split_leaf\<close>
  that the proofs follow one at a time: the test and the split after the key was put into
  a node, the search for the parent after a node was cut, and the cut of a leaf.
\<close>

definition finish_internal :: "'v SimpleBPlusTree \<Rightarrow> addr \<Rightarrow> 'v SimpleBPlusTree option" where
  "finish_internal t node =
     (if int (length (keys (heap t node))) \<ge> order t then split_internal t node else Some t)"

definition after_cut ::
    "'v SimpleBPlusTree \<Rightarrow> addr \<Rightarrow> bytes \<Rightarrow> addr \<Rightarrow> 'v SimpleBPlusTree option" where
  "after_cut t2 node pk q =
     (case find_parent (heap t2) (root t2) node of
        None \<Rightarrow> None
      | Some None \<Rightarrow> Some (make_root t2 pk node q)
      | Some (Some p) \<Rightarrow> insert_into_internal t2 p pk node q)"

definition cut_leaf :: "'v SimpleBPlusTree \<Rightarrow> addr \<Rightarrow> 'v SimpleBPlusTree" where
  "cut_leaf t leaf =
     (let n = heap t leaf;
          mid = length (keys n) div 2;
          new_leaf = next_addr t
      in t\<lparr>heap := (heap t)
              (new_leaf := leaf_node (drop mid (keys n)) (drop mid (node_values n)) (next_leaf n),
               leaf := n\<lparr>keys := take mid (keys n),
                         node_values := take mid (node_values n),
                         next_leaf := Some new_leaf\<rparr>),
            next_addr := Suc new_leaf\<rparr>)"

subsection \<open>Well-formed trees\<close>

text \<open>
  The store of \<open>t\<close> holds the tree \<open>M\<close> below the root, no node is there twice, all
  addresses are allocated, the keys are ordered and every node has fewer than \<open>order\<close>
  keys.
\<close>

definition wf_core :: "'v SimpleBPlusTree \<Rightarrow> 'v atree \<Rightarrow> bool" where
  "wf_core t M \<longleftrightarrow>
     realizes (heap t) M \<and> taddr M = root t \<and> distinct (addrs M)
     \<and> (\<forall>a \<in> set (addrs M). a < next_addr t) \<and> ord None None M \<and> small (order t) M"

text \<open>
  Moreover the \<open>next_leaf\<close> links visit the leaves from left to right, and the keys in
  the leaves are the keys of \<open>key_to_value\<close>.
\<close>

definition wf_abs :: "'v SimpleBPlusTree \<Rightarrow> 'v atree \<Rightarrow> bool" where
  "wf_abs t M \<longleftrightarrow>
     wf_core t M \<and> 2 \<le> order t
     \<and> is_chain (heap t) (Some (hd (leaves M))) (leaves M)
     \<and> set (lkeys M) = dom (key_to_value t)"

text \<open>
  What the upward pass of a split returns: a well-formed tree with the leaves \<open>Ls\<close>,
  in which the leaves, \<open>key_to_value\<close> and \<open>order\<close> are as in \<open>t0\<close>.
\<close>

definition done_ok ::
    "'v SimpleBPlusTree \<Rightarrow> addr list \<Rightarrow> 'v SimpleBPlusTree \<Rightarrow> bool" where
  "done_ok t0 Ls t' \<longleftrightarrow>
     (\<exists>M'. wf_core t' M' \<and> leaves M' = Ls) \<and> (\<forall>a \<in> set Ls. heap t' a = heap t0 a)
     \<and> key_to_value t' = key_to_value t0 \<and> order t' = order t0"

text \<open>
  The tree after a key and a right node were put into the node \<open>taddr X\<close>: it is well
  formed, but this node may hold \<open>order\<close> keys.
\<close>

definition almost ::
    "'v SimpleBPlusTree \<Rightarrow> 'v frame list \<Rightarrow> 'v atree \<Rightarrow> bool" where
  "almost t fs X \<longleftrightarrow>
     2 \<le> order t \<and> realizes (heap t) (plug fs X) \<and> taddr (plug fs X) = root t
     \<and> distinct (addrs (plug fs X)) \<and> (\<forall>a \<in> set (addrs (plug fs X)). a < next_addr t)
     \<and> ord None None (plug fs X) \<and> ctx_small (order t) fs
     \<and> (\<exists>p ks cs. X = ANode p ks cs \<and> (\<forall>c \<in> set cs. small (order t) c)
           \<and> int (length ks) \<le> order t)"

text \<open>
  The tree after a node was cut in the halves \<open>Yl\<close> and \<open>Yr\<close> around the key
  \<open>pk\<close>: the left half is in the place of the node, the right half is not yet in
  the tree.
\<close>

definition pending ::
    "'v SimpleBPlusTree \<Rightarrow> 'v frame list \<Rightarrow> 'v atree \<Rightarrow> bytes \<Rightarrow> 'v atree \<Rightarrow> bool" where
  "pending t2 fs Yl pk Yr \<longleftrightarrow>
     2 \<le> order t2 \<and> realizes (heap t2) (plug fs Yl) \<and> realizes (heap t2) Yr
     \<and> taddr (plug fs Yl) = root t2
     \<and> distinct (addrs (plug fs Yl) @ addrs Yr)
     \<and> (\<forall>a \<in> set (addrs (plug fs Yl) @ addrs Yr). a < next_addr t2)
     \<and> (\<exists>lo hi. hole_ord None None fs lo hi \<and> ord lo (Some pk) Yl \<and> ord (Some pk) hi Yr)
     \<and> ctx_small (order t2) fs \<and> small (order t2) Yl \<and> small (order t2) Yr"

text \<open>
  A sequence of \<open>insert\<close> calls in which every call returns and is given a key that
  \<open>key_to_value\<close> does not hold at that moment.
\<close>

fun insert_all_fresh :: "'v SimpleBPlusTree \<Rightarrow> (pykey \<times> 'v) list \<Rightarrow> bool" where
  "insert_all_fresh t [] = True"
| "insert_all_fresh t ((key, v) # rest) =
     (case serialize_key key of
        Inl e \<Rightarrow> False
      | Inr kb \<Rightarrow>
          key_to_value t kb = None
          \<and> (case insert_key t key v of None \<Rightarrow> False | Some t' \<Rightarrow> insert_all_fresh t' rest))"

section \<open>Properties of key serialization\<close>

lemma be_bytes_length: "length (be_bytes n k) = n"
  by (induction n arbitrary: k) simp_all

lemma byte_of_int_less:
  fixes x y :: int
  assumes "0 \<le> x" "x < y" "y < 256"
  shows "(word_of_int x :: byte) < word_of_int y"
  using assms by (simp add: wi_less)

lemma int_div_less_bound:
  fixes p b q :: int
  assumes p: "0 < p" and b: "b < q * p"
  shows "b div p < q"
proof -
  have "p * (b div p) \<le> b" using p
    by (metis add.commute le_add_same_cancel2 mult_div_mod_eq pos_mod_sign)
  then have "p * (b div p) < p * q" using b by (simp add: mult.commute)
  then show ?thesis using p by (simp add: mult_less_cancel_left_pos)
qed

lemma be_bytes_mono:
  "0 \<le> a \<Longrightarrow> a < b \<Longrightarrow> b < 256 ^ n \<Longrightarrow> be_bytes n a < be_bytes n b"
proof (induction n arbitrary: a b)
  case 0
  then show ?case by simp
next
  case (Suc n)
  let ?p = "(256::int) ^ n"
  have ppos: "0 < ?p" by simp
  have qa: "0 \<le> a div ?p" using Suc.prems(1) ppos by (simp add: pos_imp_zdiv_nonneg_iff)
  have qb: "b div ?p < 256"
    using Suc.prems(3) by (intro int_div_less_bound) simp_all
  have qle: "a div ?p \<le> b div ?p" using Suc.prems(2) ppos by (simp add: zdiv_mono1)
  show ?case
  proof (cases "a div ?p = b div ?p")
    case True
    have "a mod ?p < b mod ?p"
    proof -
      have "a = ?p * (a div ?p) + a mod ?p" "b = ?p * (b div ?p) + b mod ?p" by simp_all
      then show ?thesis using True Suc.prems(2) by (metis add_less_cancel_left)
    qed
    moreover have "0 \<le> a mod ?p" "b mod ?p < ?p" using ppos by simp_all
    ultimately have "be_bytes n (a mod ?p) < be_bytes n (b mod ?p)"
      using Suc.IH by blast
    then show ?thesis using True by simp
  next
    case False
    then have "a div ?p < b div ?p" using qle by simp
    then have "(word_of_int (a div ?p) :: byte) < word_of_int (b div ?p)"
      using qa qb by (intro byte_of_int_less)
    then show ?thesis by simp
  qed
qed

text \<open>
  C1 (as amended).  \<open>SimpleBPlusTree._serialize_key\<close> encodes every integer key in the
  range of an unsigned 64-bit field as 8 bytes, most significant first; on that range the
  byte-lexicographic order of the encodings is the numeric order of the keys, and the
  keys 1 and 256 have the encodings the specification lists.  An integer outside the
  range has no encoding: \<open>struct.error\<close> is raised.
\<close>

theorem serialize_key_int_order:
  "(0 \<le> k \<and> k < 2 ^ 64 \<longrightarrow>
      serialize_key (KInt k) = Inr (be_bytes 8 k) \<and> length (be_bytes 8 k) = 8)
   \<and> (k < 0 \<or> 2 ^ 64 \<le> k \<longrightarrow> serialize_key (KInt k) = Inl StructError)
   \<and> (0 \<le> a \<and> a < b \<and> b < 2 ^ 64 \<longrightarrow>
        (\<exists>x y. serialize_key (KInt a) = Inr x \<and> serialize_key (KInt b) = Inr y \<and> x < y))
   \<and> serialize_key (KInt 1) = Inr [0, 0, 0, 0, 0, 0, 0, 1]
   \<and> serialize_key (KInt 256) = Inr [0, 0, 0, 0, 0, 0, 1, 0]
   \<and> ([0, 0, 0, 0, 0, 0, 0, 1] :: bytes) < [0, 0, 0, 0, 0, 0, 1, 0]"
proof -
  have ord: "be_bytes 8 a < be_bytes 8 b" if "0 \<le> a" "a < b" "b < 2 ^ 64"
    using that be_bytes_mono [of a b 8] by simp
  have one: "be_bytes 8 1 = [0, 0, 0, 0, 0, 0, 0, 1]"
    by (simp add: eval_nat_numeral)
  have two: "be_bytes 8 256 = [0, 0, 0, 0, 0, 0, 1, 0]"
    by (simp add: eval_nat_numeral)
  show ?thesis
    using ord one two by (auto simp: pack_be_def be_bytes_length)
qed

theorem serialize_key_int_order_witness:
  "serialize_key (KInt 7) = Inr [0, 0, 0, 0, 0, 0, 0, 7]
   \<and> serialize_key (KInt (-1)) = Inl StructError
   \<and> (\<exists>x y. serialize_key (KInt 7) = Inr x \<and> serialize_key (KInt 300) = Inr y \<and> x < y)"
proof -
  have e: "be_bytes 8 7 = [0, 0, 0, 0, 0, 0, 0, 7]"
    by (simp add: eval_nat_numeral)
  show ?thesis
    using serialize_key_int_order [of 7 7 300] serialize_key_int_order [of "-1" 0 1] e
    by auto
qed

text \<open>The claim as the specification words it fails at the integer key \<open>-1\<close>.\<close>

theorem serialize_key_negative_counterexample:
  "serialize_key (KInt (-1)) = Inl StructError"
  by (simp add: pack_be_def)

lemma encode_utf8_error: "encode_utf8 s = Inl e \<Longrightarrow> e = UnicodeEncodeError"
  by (induction s arbitrary: e) (auto simp: utf8_char_def split: if_splits sum.splits)

text \<open>
  C6 (as amended).  \<open>BPlusTree._serialize_key\<close> returns every \<open>bytes\<close> key unchanged
  and raises \<open>TypeError\<close> for every key that is neither an integer, a string nor
  \<open>bytes\<close>.  \<open>SimpleBPlusTree._serialize_key\<close> rejects no key for its type: a key of
  another type (a float, say) is serialized as the UTF-8 encoding of its \<open>str()\<close>.
\<close>

theorem key_type_boundary:
  "bplus_serialize_key key_size (KBytes b) = Inr b
   \<and> bplus_serialize_key key_size (KOther s) = Inl TypeError
   \<and> serialize_key (KOther s) = encode_utf8 s
   \<and> serialize_key (KOther s) \<noteq> Inl TypeError"
  using encode_utf8_error [of s TypeError] by auto

text \<open>
  The claim as the specification words it fails on the float key \<open>3.5\<close>, whose
  \<open>str()\<close> is \<open>3.5\<close>: \<open>SimpleBPlusTree\<close> serializes it to the three bytes
  \<open>33 2e 35\<close>.
\<close>

theorem serialize_key_float_counterexample:
  "serialize_key (KOther [51, 46, 53]) = Inr [51, 46, 53]"
  by (simp add: utf8_char_def)

text \<open>
  What \<open>SimpleBPlusTree._serialize_key\<close> does with the \<open>bytes\<close> key \<open>b'a'\<close>: the
  result is the encoding of the text \<open>b'a'\<close>, four bytes instead of one.
\<close>

lemma serialize_key_bytes_example:
  "serialize_key (KBytes [97]) = Inr [98, 39, 97, 39]"
  by (simp add: bytes_repr_def repr_byte_def utf8_char_def)

text \<open>
  \<open>BPlusTree._serialize_key\<close> packs integers least significant byte first, so there the
  byte order of the keys 1 and 256 is the reverse of their numeric order.
\<close>

lemma bplus_serialize_key_order_example:
  "bplus_serialize_key 8 (KInt 1) = Inr [1, 0, 0, 0, 0, 0, 0, 0]
   \<and> bplus_serialize_key 8 (KInt 256) = Inr [0, 1, 0, 0, 0, 0, 0, 0]
   \<and> ([0, 1, 0, 0, 0, 0, 0, 0] :: bytes) < [1, 0, 0, 0, 0, 0, 0, 0]"
  by (simp add: pack_le_def eval_nat_numeral)

section \<open>Properties of pages\<close>

lemma le_bytes_length: "length (le_bytes n k) = n"
  by (induction n arbitrary: k) simp_all

lemma le_int_le_bytes: "0 \<le> k \<Longrightarrow> k < 256 ^ n \<Longrightarrow> le_int (le_bytes n k) = k"
proof (induction n arbitrary: k)
  case 0 then show ?case by simp
next
  case (Suc n)
  have "k div 256 < 256 ^ n" using Suc.prems by (intro int_div_less_bound) (simp_all add: mult.commute)
  moreover have "0 \<le> k div 256" using Suc.prems by simp
  ultimately have "le_int (le_bytes n (k div 256)) = k div 256" using Suc.IH by blast
  moreover have "uint (word_of_int (k mod 256) :: byte) = k mod 256"
    by (simp add: uint_word_of_int take_bit_eq_mod)
  ultimately show ?case by simp
qed

lemma pack_fields_length:
  "pack_fields fs = Inr bs \<Longrightarrow> length bs = sum_list (map fst fs)"
  by (induction fs arbitrary: bs) (auto simp: pack_le_def le_bytes_length split: sum.splits if_splits)

lemma pack_header_length: "pack_header p = Inr h \<Longrightarrow> length h = 29"
  unfolding pack_header_def by (drule pack_fields_length) simp

lemma le_int_zeros: "le_int (replicate n 0) = 0"
  by (induction n) simp_all

lemma le_int_pad: "le_int (xs @ replicate n 0) = le_int xs"
  by (induction xs) (simp_all add: le_int_zeros)

lemma checksum_loop_zeros: "set xs \<subseteq> {0} \<Longrightarrow> checksum_loop xs acc = acc"
  by (induction xs acc rule: checksum_loop.induct) (simp_all add: le_int_zeros)

lemma checksum_loop_append:
  "length xs mod 4 = 0 \<Longrightarrow> checksum_loop (xs @ ys) acc = checksum_loop ys (checksum_loop xs acc)"
  by (induction xs acc rule: checksum_loop.induct) simp_all

lemma calculate_checksum_range:
  "0 \<le> calculate_checksum d \<and> calculate_checksum d < 2 ^ 32"
proof -
  have "x AND 0xFFFFFFFF < 2 ^ 32" for x :: int
    using AND_upper2' [of "0xFFFFFFFF" x] by simp
  then show ?thesis by (simp add: calculate_checksum_def)
qed

lemma page_type_value_range: "0 \<le> page_type_value t \<and> page_type_value t < 256"
  by (cases t) simp_all

lemma pack_header_ok:
  assumes "valid_page p"
  shows "pack_header p =
     Inr (le_bytes 8 (page_id p) @ le_bytes 1 (page_type_value (page_type p))
          @ le_bytes 4 (table_id p) @ le_bytes 2 (free_space_start p)
          @ le_bytes 2 (free_space_end p) @ le_bytes 8 (lsn p) @ le_bytes 4 (checksum p))"
  using assms page_type_value_range [of "page_type p"]
  by (simp add: pack_header_def valid_page_def pack_le_def)

lemma checksum_loop_page:
  assumes "length h = 29"
  shows "checksum_loop (h @ replicate 4067 0) acc = checksum_loop (h @ [0, 0, 0]) acc"
proof -
  have r: "replicate 4067 (0::byte) = [0, 0, 0] @ replicate 4064 0"
  proof -
    have "replicate (3 + 4064) (0::byte) = replicate 3 0 @ replicate 4064 0"
      by (rule replicate_add)
    then show ?thesis by (simp add: numeral_3_eq_3)
  qed
  have "checksum_loop ((h @ [0, 0, 0]) @ replicate 4064 0) acc
        = checksum_loop (replicate 4064 0) (checksum_loop (h @ [0, 0, 0]) acc)"
    by (rule checksum_loop_append) (simp add: assms)
  then show ?thesis by (simp add: r checksum_loop_zeros)
qed

lemma page_type_of_value: "page_type_of (page_type_value t) = Inr t"
  by (cases t) (simp_all add: page_type_of_def)

lemma serialize_ok:
  assumes "valid_page p"
  shows "serialize p =
     Inr (le_bytes 8 (page_id p) @ le_bytes 1 (page_type_value (page_type p))
          @ le_bytes 4 (table_id p) @ le_bytes 2 (free_space_start p)
          @ le_bytes 2 (free_space_end p) @ le_bytes 8 (lsn p)
          @ le_bytes 4 (checksum (snd (projr (serialize p)))) @ data p,
          snd (projr (serialize p)))
     \<and> snd (projr (serialize p)) = p\<lparr>checksum := checksum (snd (projr (serialize p)))\<rparr>
     \<and> valid_page (snd (projr (serialize p)))"
proof -
  obtain h where h: "pack_header p = Inr h" using pack_header_ok [OF assms] by blast
  let ?p' = "p\<lparr>checksum := calculate_checksum (h @ data p)\<rparr>"
  have v: "valid_page ?p'"
    using assms calculate_checksum_range [of "h @ data p"] by (simp add: valid_page_def)
  have s: "serialize p = (case pack_header ?p' of Inl e \<Rightarrow> Inl e
                          | Inr header' \<Rightarrow> Inr (header' @ data ?p', ?p'))"
    by (simp add: serialize_def h Let_def)
  show ?thesis
    using v by (simp add: s pack_header_ok [OF v])
qed

lemma deserialize_serialize:
  assumes "valid_page p" and "serialize p = Inr (bs, p')"
  shows "deserialize pid bs = Inr (p'\<lparr>dirty := False\<rparr>)"
proof -
  note ok = serialize_ok [OF assms(1)]
  have p': "snd (projr (serialize p)) = p'" using assms(2) by simp
  have v': "valid_page p'" using ok p' by simp
  have eqp: "p' = p\<lparr>checksum := checksum p'\<rparr>" using ok p' by simp
  have bs: "bs = le_bytes 8 (page_id p) @ le_bytes 1 (page_type_value (page_type p))
          @ le_bytes 4 (table_id p) @ le_bytes 2 (free_space_start p)
          @ le_bytes 2 (free_space_end p) @ le_bytes 8 (lsn p)
          @ le_bytes 4 (checksum p') @ data p"
    using ok assms(2) p' by simp
  have len: "length bs = PAGE_SIZE"
    using assms(1) by (simp add: bs le_bytes_length valid_page_def DATA_SIZE_def PAGE_SIZE_def HEADER_SIZE_def)
  have f: "le_int (le_bytes 8 (page_id p)) = page_id p"
     "le_int (le_bytes 1 (page_type_value (page_type p))) = page_type_value (page_type p)"
     "le_int (le_bytes 4 (table_id p)) = table_id p"
     "le_int (le_bytes 2 (free_space_start p)) = free_space_start p"
     "le_int (le_bytes 2 (free_space_end p)) = free_space_end p"
     "le_int (le_bytes 8 (lsn p)) = lsn p"
     "le_int (le_bytes 4 (checksum p')) = checksum p'"
    using assms(1) v' page_type_value_range [of "page_type p"]
    by (simp_all add: valid_page_def le_int_le_bytes del: le_bytes.simps)
  have sl: "py_slice (py_slice bs 0 HEADER_SIZE) 0 8 = le_bytes 8 (page_id p)"
     "py_slice (py_slice bs 0 HEADER_SIZE) 8 9 = le_bytes 1 (page_type_value (page_type p))"
     "py_slice (py_slice bs 0 HEADER_SIZE) 9 13 = le_bytes 4 (table_id p)"
     "py_slice (py_slice bs 0 HEADER_SIZE) 13 15 = le_bytes 2 (free_space_start p)"
     "py_slice (py_slice bs 0 HEADER_SIZE) 15 17 = le_bytes 2 (free_space_end p)"
     "py_slice (py_slice bs 0 HEADER_SIZE) 17 25 = le_bytes 8 (lsn p)"
     "py_slice (py_slice bs 0 HEADER_SIZE) 25 29 = le_bytes 4 (checksum p')"
     "py_slice bs HEADER_SIZE PAGE_SIZE = data p"
    using assms(1)
    by (simp_all add: bs py_slice_def HEADER_SIZE_def PAGE_SIZE_def DATA_SIZE_def valid_page_def
        le_bytes_length del: le_bytes.simps)
  have rec: "p'\<lparr>dirty := False\<rparr> =
      \<lparr>page_id = page_id p, page_type = page_type p, table_id = table_id p,
       free_space_start = free_space_start p, free_space_end = free_space_end p,
       lsn = lsn p, checksum = checksum p', data = data p, dirty = False\<rparr>"
    by (subst eqp, cases p, simp)
  show ?thesis
    unfolding deserialize_def rec Let_def sl f page_type_of_value len
    by (simp add: new_page_def)
qed

lemma serialize_length:
  assumes "valid_page p"
  shows "\<exists>bs p'. serialize p = Inr (bs, p') \<and> length bs = PAGE_SIZE"
proof -
  have "length (fst (projr (serialize p))) = PAGE_SIZE"
    using assms
    by (subst serialize_ok [OF assms, THEN conjunct1])
       (simp add: le_bytes_length valid_page_def DATA_SIZE_def PAGE_SIZE_def HEADER_SIZE_def
             del: le_bytes.simps)
  then show ?thesis
    using serialize_ok [OF assms, THEN conjunct1] by (metis fst_conv sum.sel(2))
qed

lemma serialize_eval:
  assumes h: "pack_header p = Inr h" and len: "length h = 29"
    and d: "data p = replicate 4067 0"
    and c: "checksum_loop (h @ [0, 0, 0]) 0 AND 0xFFFFFFFF = c"
    and h': "pack_header (p\<lparr>checksum := c\<rparr>) = Inr h'"
  shows "serialize p = Inr (h' @ replicate 4067 0, p\<lparr>checksum := c\<rparr>)"
proof -
  have "calculate_checksum (h @ data p) = c"
    using c len by (simp add: calculate_checksum_def d checksum_loop_page)
  then show ?thesis
    by (simp add: serialize_def h h' d)
qed

lemma new_page_data: "data (new_page pid t tid) = replicate 4067 0"
  by (simp add: new_page_def DATA_SIZE_def HEADER_SIZE_def PAGE_SIZE_def)

text \<open>
  C7.  The first header is packed with the checksum the page already holds, not with
  zero.  A fresh page 1 holds checksum 0, and its first serialization stores \<open>0x1d11\<close>,
  which is the checksum over the zeroed header and the data.  The second serialization of
  the same page starts from the stored \<open>0x1d11\<close>: it returns other bytes and stores
  \<open>0x1d0c11\<close>, while the checksum over the zeroed header and the data is still
  \<open>0x1d11\<close>.
\<close>

theorem serialize_twice_differs:
  "serialize (new_page 1 FREE 0) =
     Inr ([1, 0, 0, 0, 0, 0, 0, 0, 0, 0, 0, 0, 0, 29, 0, 0, 16, 0, 0, 0, 0, 0, 0, 0, 0,
           17, 29, 0, 0] @ replicate 4067 0,
          (new_page 1 FREE 0)\<lparr>checksum := 7441\<rparr>)
   \<and> serialize ((new_page 1 FREE 0)\<lparr>checksum := 7441\<rparr>) =
     Inr ([1, 0, 0, 0, 0, 0, 0, 0, 0, 0, 0, 0, 0, 29, 0, 0, 16, 0, 0, 0, 0, 0, 0, 0, 0,
           17, 12, 29, 0] @ replicate 4067 0,
          (new_page 1 FREE 0)\<lparr>checksum := 1903633\<rparr>)
   \<and> zeroed_checksum ((new_page 1 FREE 0)\<lparr>checksum := 7441\<rparr>) = Inr 7441
   \<and> stored_checksum ([1, 0, 0, 0, 0, 0, 0, 0, 0, 0, 0, 0, 0, 29, 0, 0, 16, 0, 0, 0, 0, 0,
           0, 0, 0, 17, 12, 29, 0] @ replicate 4067 0) = 1903633"
proof -
  let ?h0 = "[1, 0, 0, 0, 0, 0, 0, 0, 0, 0, 0, 0, 0, 29, 0, 0, 16, 0, 0, 0, 0, 0, 0, 0, 0,
              0, 0, 0, 0] :: bytes"
  let ?h1 = "[1, 0, 0, 0, 0, 0, 0, 0, 0, 0, 0, 0, 0, 29, 0, 0, 16, 0, 0, 0, 0, 0, 0, 0, 0,
              17, 29, 0, 0] :: bytes"
  let ?h2 = "[1, 0, 0, 0, 0, 0, 0, 0, 0, 0, 0, 0, 0, 29, 0, 0, 16, 0, 0, 0, 0, 0, 0, 0, 0,
              17, 12, 29, 0] :: bytes"
  have h0: "pack_header (new_page 1 FREE 0) = Inr ?h0"
    by (simp add: pack_header_def new_page_def pack_le_def HEADER_SIZE_def PAGE_SIZE_def
          eval_nat_numeral)
  have h1: "pack_header ((new_page 1 FREE 0)\<lparr>checksum := 7441\<rparr>) = Inr ?h1"
    by (simp add: pack_header_def new_page_def pack_le_def HEADER_SIZE_def PAGE_SIZE_def
          eval_nat_numeral)
  have h2: "pack_header ((new_page 1 FREE 0)\<lparr>checksum := 1903633\<rparr>) = Inr ?h2"
    by (simp add: pack_header_def new_page_def pack_le_def HEADER_SIZE_def PAGE_SIZE_def
          eval_nat_numeral)
  have c0: "checksum_loop (?h0 @ [0, 0, 0]) 0 AND 0xFFFFFFFF = 7441"
    by simp
  have c1: "checksum_loop (?h1 @ [0, 0, 0]) 0 AND 0xFFFFFFFF = 1903633"
    by simp
  have s1: "serialize (new_page 1 FREE 0)
            = Inr (?h1 @ replicate 4067 0, (new_page 1 FREE 0)\<lparr>checksum := 7441\<rparr>)"
    by (rule serialize_eval [OF h0 _ new_page_data c0 h1]) simp
  have s2: "serialize ((new_page 1 FREE 0)\<lparr>checksum := 7441\<rparr>)
            = Inr (?h2 @ replicate 4067 0, (new_page 1 FREE 0)\<lparr>checksum := 1903633\<rparr>)"
    using serialize_eval [OF h1 _ _ c1, of ?h2] h2 by (simp add: new_page_data)
  have n0: "(new_page 1 FREE 0)\<lparr>checksum := 0\<rparr> = new_page 1 FREE 0"
    by (simp add: new_page_def)
  have cc: "calculate_checksum (?h0 @ replicate 4067 0) = 7441"
    unfolding calculate_checksum_def by (subst checksum_loop_page) simp_all
  have d1: "data ((new_page 1 FREE 0)\<lparr>checksum := 7441\<rparr>) = replicate 4067 0"
    by (simp add: new_page_data)
  have z: "zeroed_checksum ((new_page 1 FREE 0)\<lparr>checksum := 7441\<rparr>) = Inr 7441"
    unfolding zeroed_checksum_def d1 using cc by (simp add: n0 h0)
  have st: "stored_checksum (?h2 @ replicate 4067 0) = 1903633"
    by (simp add: stored_checksum_def py_slice_def)
  show ?thesis
    using s1 s2 z st by simp
qed

text \<open>
  The parts of C7 that hold: a valid page serializes to exactly \<open>PAGE_SIZE\<close> bytes
  (\<open>serialize_length\<close>), and when the page holds checksum 0 before the call, the stored
  checksum is the one over the zeroed header and the data.
\<close>

lemma serialize_checksum_zero:
  assumes "valid_page p" and "checksum p = 0"
  shows "zeroed_checksum p = Inr (checksum (snd (projr (serialize p))))"
proof -
  have p0: "p\<lparr>checksum := 0\<rparr> = p" using assms(2) by (cases p) simp
  obtain h where h: "pack_header p = Inr h" using pack_header_ok [OF assms(1)] by blast
  let ?p' = "p\<lparr>checksum := calculate_checksum (h @ data p)\<rparr>"
  have v: "valid_page ?p'"
    using assms calculate_checksum_range [of "h @ data p"] by (simp add: valid_page_def)
  obtain h' where h': "pack_header ?p' = Inr h'" using pack_header_ok [OF v] by blast
  show ?thesis
    by (simp add: zeroed_checksum_def p0 serialize_def h h')
qed

text \<open>
  C8.  \<open>allocate_space\<close> returns \<open>None\<close> exactly when
  \<open>free_space_start + size > free_space_end\<close> and leaves the page as it is; otherwise
  it returns the old \<open>free_space_start\<close> and advances it by \<open>size\<close>.  The function
  has no error result.  On a fresh \<open>DATA\<close> page, \<open>allocate_space(4067)\<close> succeeds
  once, and afterwards neither \<open>allocate_space(4067)\<close> nor \<open>allocate_space(1)\<close>
  succeeds.
\<close>

theorem allocate_space_contract:
  "(fst (allocate_space p sz) = None \<longleftrightarrow> free_space_start p + sz > free_space_end p)
   \<and> (free_space_start p + sz \<le> free_space_end p \<longrightarrow>
        allocate_space p sz =
          (Some (free_space_start p),
           p\<lparr>free_space_start := free_space_start p + sz, dirty := True\<rparr>))
   \<and> (free_space_start p + sz > free_space_end p \<longrightarrow> allocate_space p sz = (None, p))
   \<and> allocate_space (new_page pid DATA tid) 4067 =
        (Some 29, (new_page pid DATA tid)\<lparr>free_space_start := 4096, dirty := True\<rparr>)
   \<and> fst (allocate_space (snd (allocate_space (new_page pid DATA tid) 4067)) 4067) = None
   \<and> allocate_space (snd (allocate_space (new_page pid DATA tid) 4067)) 1 =
        (None, (new_page pid DATA tid)\<lparr>free_space_start := 4096, dirty := True\<rparr>)"
  by (simp add: allocate_space_def new_page_def HEADER_SIZE_def PAGE_SIZE_def)

theorem allocate_space_contract_witness:
  "allocate_space (new_page 3 DATA 0) 100 =
     (Some 29, (new_page 3 DATA 0)\<lparr>free_space_start := 129, dirty := True\<rparr>)
   \<and> allocate_space (new_page 3 DATA 0) 5000 = (None, new_page 3 DATA 0)"
proof -
  have a: "free_space_start (new_page 3 DATA 0) = 29" "free_space_end (new_page 3 DATA 0) = 4096"
    by (simp_all add: new_page_def HEADER_SIZE_def PAGE_SIZE_def)
  show ?thesis
    using allocate_space_contract [of "new_page 3 DATA 0" 100 3 0]
          allocate_space_contract [of "new_page 3 DATA 0" 5000 3 0]
    by (simp add: a)
qed

lemma py_slice_py_slice: "b \<le> n \<Longrightarrow> py_slice (py_slice xs 0 n) a b = py_slice xs a b"
  by (simp add: py_slice_def drop_take min_def)

text \<open>
  C10.  \<open>Page.deserialize\<close> does not use its \<open>page_id\<close> argument: two calls on the
  same buffer with different arguments give the same result, and when the buffer has
  \<open>PAGE_SIZE\<close> bytes and its type byte is a page type, every header field of the
  returned page is decoded from the first 29 bytes of the buffer.
\<close>

theorem deserialize_ignores_page_id:
  "deserialize pid raw = deserialize pid' raw
   \<and> (length raw = PAGE_SIZE \<and> page_type_of (le_int (py_slice raw 8 9)) = Inr t \<longrightarrow>
        deserialize pid raw =
          Inr \<lparr>page_id = le_int (py_slice raw 0 8), page_type = t,
               table_id = le_int (py_slice raw 9 13),
               free_space_start = le_int (py_slice raw 13 15),
               free_space_end = le_int (py_slice raw 15 17),
               lsn = le_int (py_slice raw 17 25),
               checksum = le_int (py_slice raw 25 29),
               data = py_slice raw 29 4096, dirty = False\<rparr>)"
  by (simp add: deserialize_def Let_def py_slice_py_slice HEADER_SIZE_def PAGE_SIZE_def
        new_page_def)

theorem deserialize_ignores_page_id_witness:
  "deserialize 7 (replicate 4096 0) =
     Inr \<lparr>page_id = 0, page_type = FREE, table_id = 0, free_space_start = 0,
          free_space_end = 0, lsn = 0, checksum = 0, data = replicate 4067 0,
          dirty = False\<rparr>"
proof -
  have "page_type_of (le_int (py_slice (replicate 4096 0) 8 9)) = Inr FREE"
    by (simp add: py_slice_def page_type_of_def le_int_zeros)
  then show ?thesis
    using deserialize_ignores_page_id [of 7 "replicate 4096 0" 7 FREE]
    by (simp add: PAGE_SIZE_def py_slice_def le_int_zeros)
qed

section \<open>Properties of the storage manager\<close>

lemma file_read_write:
  "file_read (file_write c pos bs) pos (length bs) = bs"
  by (simp add: file_read_def file_write_def Let_def)

lemma file_write_at_end: "file_write c (length c) bs = c @ bs"
  by (simp add: file_write_def)

lemma file_write_append:
  "file_write (file_write c pos a) (pos + length a) b = file_write c pos (a @ b)"
  by (auto simp: file_write_def Let_def min_def drop_take ac_simps)

lemma valid_new_page: "0 \<le> pid \<Longrightarrow> pid < 2 ^ 64 \<Longrightarrow> valid_page (new_page pid FREE 0)"
  by (simp add: valid_page_def new_page_def HEADER_SIZE_def PAGE_SIZE_def DATA_SIZE_def)

lemma serialize_page_bytes:
  assumes "0 \<le> pid" "pid < 2 ^ 64"
  shows "\<exists>p. serialize (new_page pid FREE 0) = Inr (page_bytes pid, p)"
    and "length (page_bytes pid) = PAGE_SIZE"
  using serialize_length [OF valid_new_page [OF assms]] by (auto simp: page_bytes_def)

lemma file_seek_ok:
  "0 \<le> offset \<Longrightarrow> nat offset \<le> file_limit lim \<Longrightarrow> file_seek lim offset = Inr (nat offset)"
  by (auto simp: file_seek_def file_limit_def)

lemma file_write_at_ok:
  "pos + length bs \<le> file_limit lim \<Longrightarrow> file_write_at lim c pos bs = Inr (file_write c pos bs)"
  by (simp add: file_write_at_def)

lemma write_free_pages_ok:
  assumes "\<forall>pid \<in> set pids. 0 \<le> pid \<and> pid < 2 ^ 64"
    and "pos + PAGE_SIZE * length pids \<le> file_limit lim"
  shows "write_free_pages lim c pos pids =
           Inr (file_write c pos (concat (map page_bytes pids)), pos + PAGE_SIZE * length pids)"
  using assms
proof (induction pids arbitrary: c pos)
  case Nil
  show ?case by (simp add: file_write_def)
next
  case (Cons pid pids)
  obtain p where s: "serialize (new_page pid FREE 0) = Inr (page_bytes pid, p)"
    using serialize_page_bytes(1) [of pid] Cons.prems by auto
  have l: "length (page_bytes pid) = PAGE_SIZE"
    using serialize_page_bytes(2) [of pid] Cons.prems by auto
  have w: "file_write_at lim c pos (page_bytes pid) = Inr (file_write c pos (page_bytes pid))"
    using Cons.prems(2) by (intro file_write_at_ok) (simp add: l)
  have "write_free_pages lim (file_write c pos (page_bytes pid)) (pos + PAGE_SIZE) pids =
          Inr (file_write (file_write c pos (page_bytes pid)) (pos + PAGE_SIZE)
                 (concat (map page_bytes pids)), pos + PAGE_SIZE + PAGE_SIZE * length pids)"
    using Cons.prems by (intro Cons.IH) simp_all
  then show ?case
    using file_write_append [of c pos "page_bytes pid" "concat (map page_bytes pids)"]
    by (simp add: s w l)
qed

text \<open>The loop raises when the pages do not fit the largest file.\<close>

lemma write_free_pages_beyond:
  assumes "\<forall>pid \<in> set pids. 0 \<le> pid \<and> pid < 2 ^ 64"
    and "pos \<le> file_limit lim"
    and "pos + PAGE_SIZE * length pids > file_limit lim"
  shows "write_free_pages lim c pos pids = Inl OSError"
  using assms
proof (induction pids arbitrary: c pos)
  case Nil
  then show ?case by simp
next
  case (Cons pid pids)
  obtain p where s: "serialize (new_page pid FREE 0) = Inr (page_bytes pid, p)"
    using serialize_page_bytes(1) [of pid] Cons.prems by auto
  have l: "length (page_bytes pid) = PAGE_SIZE"
    using serialize_page_bytes(2) [of pid] Cons.prems by auto
  have ne: "page_bytes pid \<noteq> []" using l by (auto simp: PAGE_SIZE_def)
  show ?case
  proof (cases "pos + PAGE_SIZE > file_limit lim")
    case True
    then show ?thesis using ne by (simp add: s file_write_at_def l)
  next
    case False
    then have w: "file_write_at lim c pos (page_bytes pid) = Inr (file_write c pos (page_bytes pid))"
      by (simp add: file_write_at_def l)
    have "write_free_pages lim (file_write c pos (page_bytes pid)) (pos + PAGE_SIZE) pids
            = Inl OSError"
      using Cons.prems False by (intro Cons.IH) simp_all
    then show ?thesis by (simp add: s w l)
  qed
qed

lemma pack_fields_error: "pack_fields fs = Inl e \<Longrightarrow> e = StructError"
  by (induction fs arbitrary: e) (auto simp: pack_le_def split: sum.splits if_splits)

lemma header_serialize_ok:
  assumes "valid_header h" "0 \<le> db_size h" "db_size h < 2 ^ 64"
  shows "header_serialize h =
     Inr (le_bytes 4 (magic h) @ le_bytes 4 (page_size h) @ le_bytes 8 (db_size h)
          @ le_bytes 8 (catalog_root h) @ le_bytes 8 (free_list_head h)
          @ le_bytes 8 (last_transaction_id h) @ le_bytes 4 (header_checksum h)
          @ replicate 4052 0)"
  using assms by (simp add: header_serialize_def valid_header_def pack_le_def ljust_def
      le_bytes_length del: le_bytes.simps)

lemma header_serialize_length: "header_serialize h = Inr hb \<Longrightarrow> length hb = 4096"
  by (auto simp: header_serialize_def ljust_def simp del: pack_fields.simps
        split: sum.splits dest!: pack_fields_length)

lemma header_serialize_overflow:
  assumes "2 ^ 64 \<le> db_size h"
  shows "header_serialize h = Inl StructError"
proof (cases "header_serialize h")
  case (Inl e)
  then show ?thesis
    by (auto simp: header_serialize_def simp del: pack_fields.simps
          split: sum.splits dest: pack_fields_error)
next
  case (Inr hb)
  then show ?thesis using assms
    by (auto simp: header_serialize_def pack_le_def split: sum.splits if_splits)
qed

lemma header_roundtrip:
  assumes "valid_header h" "0 \<le> db_size h" "db_size h < 2 ^ 64" "magic h = MAGIC_NUMBER"
    and "header_serialize h = Inr hb"
  shows "header_deserialize (file_read (hb @ rest) 0 4096) = Inr h"
proof -
  have hb: "hb = le_bytes 4 (magic h) @ le_bytes 4 (page_size h) @ le_bytes 8 (db_size h)
          @ le_bytes 8 (catalog_root h) @ le_bytes 8 (free_list_head h)
          @ le_bytes 8 (last_transaction_id h) @ le_bytes 4 (header_checksum h)
          @ replicate 4052 0"
    using header_serialize_ok [OF assms(1-3)] assms(5) by simp
  have len: "length hb = 4096" using assms(5) by (rule header_serialize_length)
  have rd: "file_read (hb @ rest) 0 4096 = hb" by (simp add: file_read_def len)
  have f: "le_int (le_bytes 4 (magic h)) = magic h"
     "le_int (le_bytes 4 (page_size h)) = page_size h"
     "le_int (le_bytes 8 (db_size h)) = db_size h"
     "le_int (le_bytes 8 (catalog_root h)) = catalog_root h"
     "le_int (le_bytes 8 (free_list_head h)) = free_list_head h"
     "le_int (le_bytes 8 (last_transaction_id h)) = last_transaction_id h"
     "le_int (le_bytes 4 (header_checksum h)) = header_checksum h"
    using assms(1-3) by (simp_all add: valid_header_def le_int_le_bytes del: le_bytes.simps)
  have sl: "py_slice (py_slice hb 0 44) 0 4 = le_bytes 4 (magic h)"
     "py_slice (py_slice hb 0 44) 4 8 = le_bytes 4 (page_size h)"
     "py_slice (py_slice hb 0 44) 8 16 = le_bytes 8 (db_size h)"
     "py_slice (py_slice hb 0 44) 16 24 = le_bytes 8 (catalog_root h)"
     "py_slice (py_slice hb 0 44) 24 32 = le_bytes 8 (free_list_head h)"
     "py_slice (py_slice hb 0 44) 32 40 = le_bytes 8 (last_transaction_id h)"
     "py_slice (py_slice hb 0 44) 40 44 = le_bytes 4 (header_checksum h)"
    by (simp_all add: hb py_slice_def le_bytes_length del: le_bytes.simps)
  show ?thesis
    unfolding rd header_deserialize_def Let_def sl f
    using assms(4) len by simp
qed

lemma valid_new_header: "valid_header new_header" "magic new_header = MAGIC_NUMBER"
  by (simp_all add: valid_header_def new_header_def MAGIC_NUMBER_def PAGE_SIZE_def)

lemma limit_below_field:
  assumes "n * int PAGE_SIZE \<le> int (file_limit lim)"
  shows "n < 2 ^ 51"
proof -
  have "int (file_limit lim) < 2 ^ 63" by (simp add: file_limit_def min_def)
  then have "n * 4096 < 2 ^ 51 * 4096" using assms by (simp add: PAGE_SIZE_def)
  then show ?thesis by simp
qed

lemma length_page_ids:
  assumes "0 \<le> a" "a \<le> n"
  shows "nat (a * int PAGE_SIZE) + PAGE_SIZE * length [a..n - 1] = nat (n * int PAGE_SIZE)"
proof -
  have "length [a..n - 1] = nat (n - a)" by simp
  moreover have "int (nat (a * 4096) + 4096 * nat (n - a)) = int (nat (n * 4096))"
    using assms by simp
  ultimately show ?thesis unfolding PAGE_SIZE_def by (simp only: of_nat_eq_iff of_nat_numeral)
qed

lemma extend_file_ok:
  assumes "sm_file sm = Some (f, pos)" "valid_header (header sm)"
    and "0 \<le> db_size (header sm)" "db_size (header sm) < n"
    and "n * int PAGE_SIZE \<le> int (file_limit (fs_limit sm))"
  shows "\<exists>c pos'. extend_file sm n =
            Inr (sm\<lparr>inodes := (inodes sm)(f := c), sm_file := Some (f, pos'),
                     header := (header sm)\<lparr>db_size := n\<rparr>\<rparr>)"
proof -
  let ?lim = "fs_limit sm"
  let ?old = "db_size (header sm)"
  let ?ids = "[?old..n - 1]"
  let ?p0 = "nat (?old * int PAGE_SIZE)"
  have n: "n < 2 ^ 64" using limit_below_field [OF assms(5)] by simp
  have ids: "\<forall>pid \<in> set ?ids. 0 \<le> pid \<and> pid < 2 ^ 64" using assms(3) n by auto
  have vh: "valid_header ((header sm)\<lparr>db_size := n\<rparr>)"
    using assms(2) by (simp add: valid_header_def)
  obtain hb where hb: "header_serialize ((header sm)\<lparr>db_size := n\<rparr>) = Inr hb"
    using header_serialize_ok [OF vh] assms(3,4) n by simp
  have len: "length hb = 4096" using hb by (rule header_serialize_length)
  have le: "?old * int PAGE_SIZE \<le> n * int PAGE_SIZE"
    using assms(4) by (simp add: PAGE_SIZE_def)
  have sk: "file_seek ?lim (?old * int PAGE_SIZE) = Inr ?p0"
    using assms(3,5) le by (intro file_seek_ok) (simp_all add: PAGE_SIZE_def)
  have tot: "?p0 + PAGE_SIZE * length ?ids = nat (n * int PAGE_SIZE)"
    using assms(3,4) by (intro length_page_ids) simp_all
  have fit: "?p0 + PAGE_SIZE * length ?ids \<le> file_limit ?lim"
    unfolding tot using assms(5) by linarith
  have "4096 \<le> n * int PAGE_SIZE" using assms(3,4) by (simp add: PAGE_SIZE_def)
  then have "0 + length hb \<le> file_limit ?lim" using assms(5) len by linarith
  then have hw: "file_write_at ?lim c 0 hb = Inr (file_write c 0 hb)" for c
    by (rule file_write_at_ok)
  show ?thesis
    using assms(1,4)
    by (simp add: extend_file_def sk write_free_pages_ok [OF ids fit] hb hw Let_def) blast
qed

text \<open>\<open>_extend_file\<close> raises when the new pages do not fit the largest file.\<close>

lemma extend_file_beyond:
  assumes "sm_file sm = Some (f, pos)"
    and "0 \<le> db_size (header sm)" "db_size (header sm) < n" "n \<le> 2 ^ 64"
    and "db_size (header sm) * int PAGE_SIZE \<le> int (file_limit (fs_limit sm))"
    and "n * int PAGE_SIZE > int (file_limit (fs_limit sm))"
  shows "extend_file sm n = Inl OSError"
proof -
  let ?lim = "fs_limit sm"
  let ?old = "db_size (header sm)"
  let ?ids = "[?old..n - 1]"
  let ?p0 = "nat (?old * int PAGE_SIZE)"
  have ids: "\<forall>pid \<in> set ?ids. 0 \<le> pid \<and> pid < 2 ^ 64" using assms(2,4) by auto
  have sk: "file_seek ?lim (?old * int PAGE_SIZE) = Inr ?p0"
    using assms(2,5) by (intro file_seek_ok) (simp_all add: PAGE_SIZE_def)
  have tot: "?p0 + PAGE_SIZE * length ?ids = nat (n * int PAGE_SIZE)"
    using assms(2,3) by (intro length_page_ids) simp_all
  have p0: "?p0 \<le> file_limit ?lim" using assms(5) by linarith
  have "?p0 + PAGE_SIZE * length ?ids > file_limit ?lim"
    unfolding tot using assms(6) by linarith
  from write_free_pages_beyond [OF ids p0 this]
  show ?thesis using assms(1,3) by (simp add: extend_file_def sk Let_def)
qed

lemma write_page_extends:
  assumes o: "is_open sm" and f: "sm_file sm = Some (f, pos)" and vh: "valid_header (header sm)"
    and d0: "0 \<le> db_size (header sm)" and vp: "valid_page p"
    and ge: "db_size (header sm) \<le> page_id p"
    and lim: "(page_id p + 1) * int PAGE_SIZE \<le> int (file_limit (fs_limit sm))"
  shows "\<exists>sm' p' q sm''.
           write_page sm p = Inr (sm', p') \<and> db_size (header sm') = page_id p + 1
           \<and> fs_limit sm' = fs_limit sm
           \<and> read_page sm' (page_id p) = Inr (q, sm'')
           \<and> page_id q = page_id p \<and> page_type q = page_type p
           \<and> table_id q = table_id p \<and> data q = data p"
proof -
  let ?lim = "fs_limit sm"
  obtain c pos' where e: "extend_file sm (page_id p + 1) =
      Inr (sm\<lparr>inodes := (inodes sm)(f := c), sm_file := Some (f, pos'),
                header := (header sm)\<lparr>db_size := page_id p + 1\<rparr>\<rparr>)"
    using extend_file_ok [OF f vh d0 _ lim] ge by force
  obtain bs p' where s: "serialize p = Inr (bs, p')" and len: "length bs = PAGE_SIZE"
    using serialize_length [OF vp] by blast
  have ds: "deserialize (page_id p) bs = Inr (p'\<lparr>dirty := False\<rparr>)"
    using deserialize_serialize [OF vp s] .
  have p': "p' = p\<lparr>checksum := checksum p'\<rparr>"
    using serialize_ok [OF vp] s by simp
  let ?off = "nat (page_id p * int PAGE_SIZE)"
  have p0: "0 \<le> page_id p" using d0 ge by simp
  have end_eq: "?off + PAGE_SIZE = nat ((page_id p + 1) * int PAGE_SIZE)"
    using p0 by (simp add: PAGE_SIZE_def nat_add_distrib nat_mult_distrib algebra_simps)
  have fit: "?off + length bs \<le> file_limit ?lim"
    unfolding len end_eq using lim by linarith
  have sk: "file_seek ?lim (page_id p * int PAGE_SIZE) = Inr ?off"
    using p0 fit by (intro file_seek_ok) (simp_all add: PAGE_SIZE_def)
  have fw: "file_write_at ?lim c ?off bs = Inr (file_write c ?off bs)"
    using fit by (rule file_write_at_ok)
  let ?sm' = "sm\<lparr>inodes := (inodes sm)(f := file_write c ?off bs),
                  sm_file := Some (f, ?off + length bs),
                  header := (header sm)\<lparr>db_size := page_id p + 1\<rparr>\<rparr>"
  have w: "write_page sm p = Inr (?sm', p'\<lparr>dirty := False\<rparr>)"
    using o ge by (simp add: write_page_def e s sk fw Let_def)
  have rd: "file_read (file_write c ?off bs) ?off PAGE_SIZE = bs"
    using file_read_write [of c ?off bs] len by simp
  have r: "read_page ?sm' (page_id p)
        = Inr (p'\<lparr>dirty := False\<rparr>, ?sm'\<lparr>sm_file := Some (f, ?off + PAGE_SIZE)\<rparr>)"
    using o by (simp add: read_page_def sk rd len ds Let_def)
  have fields: "page_id (p'\<lparr>dirty := False\<rparr>) = page_id p"
      "page_type (p'\<lparr>dirty := False\<rparr>) = page_type p"
      "table_id (p'\<lparr>dirty := False\<rparr>) = table_id p"
      "data (p'\<lparr>dirty := False\<rparr>) = data p"
    by (subst p', simp)+
  have "write_page sm p = Inr (?sm', p'\<lparr>dirty := False\<rparr>)
        \<and> db_size (header ?sm') = page_id p + 1
        \<and> fs_limit ?sm' = fs_limit sm
        \<and> read_page ?sm' (page_id p)
            = Inr (p'\<lparr>dirty := False\<rparr>, ?sm'\<lparr>sm_file := Some (f, ?off + PAGE_SIZE)\<rparr>)
        \<and> page_id (p'\<lparr>dirty := False\<rparr>) = page_id p
        \<and> page_type (p'\<lparr>dirty := False\<rparr>) = page_type p
        \<and> table_id (p'\<lparr>dirty := False\<rparr>) = table_id p
        \<and> data (p'\<lparr>dirty := False\<rparr>) = data p"
    using w r fields by simp
  then show ?thesis by blast
qed

lemma le_int_range: "0 \<le> le_int bs \<and> le_int bs < 256 ^ length bs"
proof (induction bs)
  case Nil
  show ?case by simp
next
  case (Cons b bs)
  have "0 \<le> uint b" "uint b < 256" using uint_bounded [of b] by simp_all
  then show ?case using Cons by simp
qed

lemma le_int_range_slice:
  assumes "j - i \<le> n"
  shows "0 \<le> le_int (py_slice xs i j) \<and> le_int (py_slice xs i j) < 256 ^ n"
proof -
  have "length (py_slice xs i j) \<le> n" using assms by (simp add: py_slice_def)
  then have "(256::int) ^ length (py_slice xs i j) \<le> 256 ^ n"
    by (simp add: power_increasing)
  then show ?thesis using le_int_range [of "py_slice xs i j"] by linarith
qed

lemma header_deserialize_valid:
  assumes "header_deserialize d = Inr h"
  shows "valid_header h \<and> 0 \<le> db_size h \<and> db_size h < 2 ^ 64"
proof -
  let ?raw = "py_slice d 0 44"
  have h: "h = \<lparr>magic = le_int (py_slice ?raw 0 4), page_size = le_int (py_slice ?raw 4 8),
                 db_size = le_int (py_slice ?raw 8 16),
                 catalog_root = le_int (py_slice ?raw 16 24),
                 free_list_head = le_int (py_slice ?raw 24 32),
                 last_transaction_id = le_int (py_slice ?raw 32 40),
                 header_checksum = le_int (py_slice ?raw 40 44)\<rparr>"
    using assms by (auto simp: header_deserialize_def Let_def split: if_splits)
  show ?thesis
    unfolding valid_header_def
    using le_int_range_slice [of 4 0 4 ?raw] le_int_range_slice [of 8 4 4 ?raw]
      le_int_range_slice [of 16 8 8 ?raw] le_int_range_slice [of 24 16 8 ?raw]
      le_int_range_slice [of 32 24 8 ?raw] le_int_range_slice [of 40 32 8 ?raw]
      le_int_range_slice [of 44 40 4 ?raw]
    by (simp add: h)
qed

lemma sm_open_opened: "sm_open sm0 = Inr sm \<Longrightarrow> opened sm"
  using header_deserialize_valid
  by (auto simp: sm_open_def opened_def Let_def split: option.splits sum.splits if_splits)

lemma create_then_open:
  assumes "path = None \<or> ov" and lim: "40960 \<le> file_limit lim"
  shows "\<exists>sm1 sm2 p sm3.
           create_database (new_storage_manager lim fs nxt path) ov = Inr sm1
           \<and> sm_open sm1 = Inr sm2 \<and> opened sm2 \<and> fs_limit sm2 = lim
           \<and> db_size (header sm2) = 10
           \<and> read_page sm2 1 = Inr (p, sm3) \<and> page_type p = FREE"
proof -
  let ?sm0 = "new_storage_manager lim fs nxt path"
  let ?hdr = "new_header\<lparr>db_size := 10\<rparr>"
  have vh: "valid_header ?hdr" using valid_new_header by (simp add: valid_header_def)
  obtain hb where hb: "header_serialize ?hdr = Inr hb"
    using header_serialize_ok [OF vh] by simp
  have len: "length hb = 4096" using hb by (rule header_serialize_length)
  have nz: "hb \<noteq> []" using len by auto
  have ids: "\<forall>pid \<in> set [1..9::int]. 0 \<le> pid \<and> pid < 2 ^ 64" by auto
  define rest where "rest = concat (map page_bytes [2..9])"
  let ?content = "hb @ page_bytes 1 @ rest"
  have up: "concat (map page_bytes [1..9]) = page_bytes 1 @ rest"
    by (simp add: upto_rec1 rest_def)
  have f0: "file_write [] 0 hb = hb" using nz by (simp add: file_write_def)
  have w0: "file_write_at lim [] 0 hb = Inr hb"
    using file_write_at_ok [of 0 hb lim "[]"] lim len f0 by simp
  have fw: "file_write hb 4096 (concat (map page_bytes [1..9])) = ?content"
    using file_write_at_end [of hb "concat (map page_bytes [1..9])"] by (simp only: len up)
  have fit: "4096 + PAGE_SIZE * length [1..9::int] \<le> file_limit lim"
    using lim by (simp add: PAGE_SIZE_def)
  let ?sm1 = "?sm0\<lparr>inodes := (inodes ?sm0)(nxt := ?content), next_inode := Suc nxt,
                    path_inode := Some nxt, header := ?hdr\<rparr>"
  have c: "create_database ?sm0 ov = Inr ?sm1"
    using assms(1) write_free_pages_ok [OF ids fit, of hb]
    by (auto simp: create_database_def new_storage_manager_def hb w0 len fw simp del: upto.simps)
  have hd: "header_deserialize (file_read ?content 0 4096) = Inr ?hdr"
    by (rule header_roundtrip [OF vh _ _ _ hb]) (simp_all add: valid_new_header new_header_def)
  have rl: "length (file_read ?content 0 4096) = 4096"
    by (simp add: file_read_def len)
  let ?sm2 = "?sm1\<lparr>sm_file := Some (nxt, 4096), header := ?hdr, is_open := True\<rparr>"
  have o: "sm_open ?sm1 = Inr ?sm2"
    by (simp add: sm_open_def new_storage_manager_def hd rl Let_def new_header_def)
  have op: "opened ?sm2" using o by (rule sm_open_opened)
  have fl: "fs_limit ?sm2 = lim" by (simp add: new_storage_manager_def)
  obtain p' where s: "serialize (new_page 1 FREE 0) = Inr (page_bytes 1, p')"
    using serialize_page_bytes(1) [of 1] by auto
  have l1: "length (page_bytes 1) = PAGE_SIZE"
    using serialize_page_bytes(2) [of 1] by simp
  have v1: "valid_page (new_page 1 FREE 0)" by (rule valid_new_page) simp_all
  have ds: "deserialize 1 (page_bytes 1) = Inr (p'\<lparr>dirty := False\<rparr>)"
    using deserialize_serialize [OF v1 s] .
  have p': "p' = (new_page 1 FREE 0)\<lparr>checksum := checksum p'\<rparr>"
    using serialize_ok [OF v1] s by simp
  have pt: "page_type (p'\<lparr>dirty := False\<rparr>) = FREE"
    by (subst p') (simp add: new_page_def)
  have sk: "file_seek lim (1 * int PAGE_SIZE) = Inr PAGE_SIZE"
    using file_seek_ok [of "1 * int PAGE_SIZE" lim] lim by (simp add: PAGE_SIZE_def)
  have rd: "file_read ?content PAGE_SIZE PAGE_SIZE = page_bytes 1"
    using l1 by (simp add: file_read_def len PAGE_SIZE_def)
  have r: "read_page ?sm2 1 = Inr (p'\<lparr>dirty := False\<rparr>,
                                   ?sm2\<lparr>sm_file := Some (nxt, PAGE_SIZE + PAGE_SIZE)\<rparr>)"
    unfolding read_page_def Let_def
    by (simp add: new_storage_manager_def new_header_def sk [simplified] rd l1 ds)
  have "create_database ?sm0 ov = Inr ?sm1 \<and> sm_open ?sm1 = Inr ?sm2 \<and> opened ?sm2
        \<and> fs_limit ?sm2 = lim \<and> db_size (header ?sm2) = 10
        \<and> read_page ?sm2 1 = Inr (p'\<lparr>dirty := False\<rparr>,
                                   ?sm2\<lparr>sm_file := Some (nxt, PAGE_SIZE + PAGE_SIZE)\<rparr>)
        \<and> page_type (p'\<lparr>dirty := False\<rparr>) = FREE"
    using c o op fl r pt by simp
  then show ?thesis by blast
qed

lemma write_page_opened:
  assumes "opened sm" "write_page sm p = Inr (sm', p')" "db_size (header sm) \<le> page_id p"
    and "(page_id p + 1) * int PAGE_SIZE \<le> int (file_limit (fs_limit sm))"
  shows "opened sm'"
proof -
  obtain f pos where f: "sm_file sm = Some (f, pos)" using assms(1) by (auto simp: opened_def)
  have o: "is_open sm" "valid_header (header sm)" "0 \<le> db_size (header sm)"
    using assms(1) by (simp_all add: opened_def)
  have lt: "page_id p + 1 < 2 ^ 64" using limit_below_field [OF assms(4)] by simp
  obtain c pos' where e: "extend_file sm (page_id p + 1) =
      Inr (sm\<lparr>inodes := (inodes sm)(f := c), sm_file := Some (f, pos'),
                header := (header sm)\<lparr>db_size := page_id p + 1\<rparr>\<rparr>)"
    using extend_file_ok [OF f o(2,3) _ assms(4)] assms(3) by force
  show ?thesis
    using assms(2,3) lt o
    by (auto simp: write_page_def e Let_def opened_def valid_header_def
          split: if_splits sum.splits)
qed

text \<open>
  \<open>write_page\<close> raises \<open>OSError\<close> when the pages up to the written one do not fit
  the largest file.
\<close>

lemma write_page_beyond:
  assumes "opened sm" and "db_size (header sm) \<le> page_id p" and "page_id p < 2 ^ 64"
    and "db_size (header sm) * int PAGE_SIZE \<le> int (file_limit (fs_limit sm))"
    and "(page_id p + 1) * int PAGE_SIZE > int (file_limit (fs_limit sm))"
  shows "write_page sm p = Inl OSError"
proof -
  obtain f pos where f: "sm_file sm = Some (f, pos)" using assms(1) by (auto simp: opened_def)
  have o: "is_open sm" "0 \<le> db_size (header sm)"
    using assms(1) by (simp_all add: opened_def)
  have "extend_file sm (page_id p + 1) = Inl OSError"
    by (rule extend_file_beyond [OF f o(2) _ _ assms(4,5)]) (use assms(2,3) in simp_all)
  then show ?thesis using o(1) assms(2) by (simp add: write_page_def)
qed

text \<open>
  C9 (as amended).  Let the file system keep files of at most \<open>fs_limit\<close> bytes
  (\<open>file_limit\<close> is that size, and at most \<open>2^63 - 1\<close>).  After
  \<open>create_database\<close> and \<open>open\<close> on a fresh manager (the file absent, or
  \<open>overwrite\<close> set) on a file system that keeps the ten pages, \<open>db_size\<close> is 10
  and \<open>read_page(1)\<close> returns a page of type \<open>FREE\<close>.  Every manager that
  \<open>open\<close> returns is \<open>opened\<close>, and on an \<open>opened\<close> manager, \<open>write_page\<close>
  of a valid page whose \<open>page_id\<close> is at least \<open>db_size\<close>, and for which the file
  system keeps a file of \<open>page_id + 1\<close> pages, sets \<open>db_size\<close> to \<open>page_id + 1\<close>,
  leaves the manager \<open>opened\<close>, and a following \<open>read_page(page_id)\<close> returns a
  page with the written \<open>page_id\<close>, \<open>page_type\<close>, \<open>table_id\<close> and data.
\<close>

theorem storage_round_trip:
  "((path = None \<or> overwrite) \<and> 10 * PAGE_SIZE \<le> file_limit lim \<longrightarrow>
      (\<exists>sm1 sm2 p sm3.
          create_database (new_storage_manager lim fs nxt path) overwrite = Inr sm1
          \<and> sm_open sm1 = Inr sm2 \<and> db_size (header sm2) = 10
          \<and> read_page sm2 1 = Inr (p, sm3) \<and> page_type p = FREE))
   \<and> (sm_open sm0 = Inr sm \<longrightarrow> opened sm)
   \<and> (opened sm \<and> valid_page pg \<and> db_size (header sm) \<le> page_id pg
        \<and> (page_id pg + 1) * int PAGE_SIZE \<le> int (file_limit (fs_limit sm)) \<longrightarrow>
      (\<exists>sm' pg' q sm''.
          write_page sm pg = Inr (sm', pg') \<and> db_size (header sm') = page_id pg + 1
          \<and> opened sm'
          \<and> read_page sm' (page_id pg) = Inr (q, sm'')
          \<and> page_id q = page_id pg \<and> page_type q = page_type pg
          \<and> table_id q = table_id pg \<and> data q = data pg))"
proof (intro conjI impI)
  assume "(path = None \<or> overwrite) \<and> 10 * PAGE_SIZE \<le> file_limit lim"
  then have "path = None \<or> overwrite" "40960 \<le> file_limit lim"
    by (simp_all add: PAGE_SIZE_def)
  from create_then_open [OF this, of fs nxt]
  show "\<exists>sm1 sm2 p sm3.
          create_database (new_storage_manager lim fs nxt path) overwrite = Inr sm1
          \<and> sm_open sm1 = Inr sm2 \<and> db_size (header sm2) = 10
          \<and> read_page sm2 1 = Inr (p, sm3) \<and> page_type p = FREE"
    by blast
next
  assume "sm_open sm0 = Inr sm"
  then show "opened sm" by (rule sm_open_opened)
next
  assume a: "opened sm \<and> valid_page pg \<and> db_size (header sm) \<le> page_id pg
        \<and> (page_id pg + 1) * int PAGE_SIZE \<le> int (file_limit (fs_limit sm))"
  then obtain f pos where f: "sm_file sm = Some (f, pos)" by (auto simp: opened_def)
  have o: "is_open sm" "valid_header (header sm)" "0 \<le> db_size (header sm)"
    using a by (simp_all add: opened_def)
  from write_page_extends [OF o(1) f o(2,3)] a
  obtain sm' pg' q sm'' where w:
      "write_page sm pg = Inr (sm', pg')" "db_size (header sm') = page_id pg + 1"
      "read_page sm' (page_id pg) = Inr (q, sm'')"
      "page_id q = page_id pg" "page_type q = page_type pg"
      "table_id q = table_id pg" "data q = data pg"
    by blast
  have "opened sm'" using write_page_opened [OF _ w(1)] a by blast
  with w show "\<exists>sm' pg' q sm''.
          write_page sm pg = Inr (sm', pg') \<and> db_size (header sm') = page_id pg + 1
          \<and> opened sm'
          \<and> read_page sm' (page_id pg) = Inr (q, sm'')
          \<and> page_id q = page_id pg \<and> page_type q = page_type pg
          \<and> table_id q = table_id pg \<and> data q = data pg"
    by blast
qed

text \<open>
  An instance, on an empty file system whose largest file has \<open>2^44 - 4096\<close> bytes:
  the page 12 is written after \<open>create_database\<close> and \<open>open\<close>.
\<close>

theorem storage_round_trip_witness:
  "\<exists>sm1 sm2 sm' pg' q sm''.
      create_database (new_storage_manager (2 ^ 44 - 4096) empty_fs 0 None) False = Inr sm1
      \<and> sm_open sm1 = Inr sm2 \<and> db_size (header sm2) = 10
      \<and> write_page sm2 (new_page 12 DATA 7) = Inr (sm', pg')
      \<and> db_size (header sm') = 13
      \<and> read_page sm' 12 = Inr (q, sm'')
      \<and> page_id q = 12 \<and> page_type q = DATA \<and> table_id q = 7
      \<and> data q = replicate 4067 0"
proof -
  let ?lim = "2 ^ 44 - 4096 :: nat"
  let ?pg = "new_page 12 DATA 7"
  have vp: "valid_page ?pg"
    by (simp add: valid_page_def new_page_def HEADER_SIZE_def PAGE_SIZE_def DATA_SIZE_def)
  have pf: "page_id ?pg = 12" "page_type ?pg = DATA" "table_id ?pg = 7"
    by (simp_all add: new_page_def)
  have l10: "(None = (None :: nat option) \<or> False) \<and> 10 * PAGE_SIZE \<le> file_limit ?lim"
    by (simp add: file_limit_def PAGE_SIZE_def)
  from storage_round_trip [of None False ?lim empty_fs 0] l10
  obtain sm1 sm2 where c:
      "create_database (new_storage_manager ?lim empty_fs 0 None) False = Inr sm1"
      "sm_open sm1 = Inr sm2" "db_size (header sm2) = 10"
    by blast
  have op: "opened sm2" using storage_round_trip [of _ _ _ _ _ sm1 sm2] c(2) by blast
  have "fs_limit sm1 = ?lim"
    using c(1) by (auto simp: create_database_def new_storage_manager_def Let_def
        split: sum.splits prod.splits if_splits)
  then have l: "fs_limit sm2 = ?lim"
    using c(2) by (auto simp: sm_open_def Let_def split: option.splits sum.splits if_splits)
  have "opened sm2 \<and> valid_page ?pg \<and> db_size (header sm2) \<le> page_id ?pg
        \<and> (page_id ?pg + 1) * int PAGE_SIZE \<le> int (file_limit (fs_limit sm2))"
    using op vp c(3) by (simp add: pf l file_limit_def PAGE_SIZE_def)
  with storage_round_trip [of _ _ _ _ _ _ sm2 ?pg]
  obtain sm' pg' q sm'' where w:
      "write_page sm2 ?pg = Inr (sm', pg')" "db_size (header sm') = page_id ?pg + 1"
      "read_page sm' (page_id ?pg) = Inr (q, sm'')"
      "page_id q = page_id ?pg" "page_type q = page_type ?pg"
      "table_id q = table_id ?pg" "data q = data ?pg"
    by blast
  show ?thesis
    using c w by (simp add: pf new_page_data)
qed

text \<open>
  The claim as the specification words it fails for a page whose offset is no file
  offset: on a file system that keeps the largest files there are (\<open>2^63 - 1\<close> bytes),
  after \<open>create_database\<close> and \<open>open\<close>, \<open>write_page\<close> of a valid page with the
  \<open>page_id\<close> \<open>2^51\<close> raises \<open>OSError\<close>: the loop of \<open>_extend_file\<close> writes
  the pages from 10 on and comes to the end of the largest file before it comes to this
  page.
\<close>

theorem write_page_beyond_limit_counterexample:
  "valid_page (new_page (2 ^ 51) DATA 0)
   \<and> db_size (header (projr (sm_open (projr (create_database
          (new_storage_manager (2 ^ 63 - 1) empty_fs 0 None) False))))) = 10
   \<and> write_page (projr (sm_open (projr (create_database
          (new_storage_manager (2 ^ 63 - 1) empty_fs 0 None) False))))
        (new_page (2 ^ 51) DATA 0) = Inl OSError"
proof -
  let ?lim = "2 ^ 63 - 1 :: nat"
  let ?pg = "new_page (2 ^ 51) DATA 0"
  have vp: "valid_page ?pg"
    by (simp add: valid_page_def new_page_def HEADER_SIZE_def PAGE_SIZE_def DATA_SIZE_def)
  have "40960 \<le> file_limit ?lim" by (simp add: file_limit_def)
  from create_then_open [of None False ?lim empty_fs 0, OF _ this]
  obtain sm1 sm2 where c:
      "create_database (new_storage_manager ?lim empty_fs 0 None) False = Inr sm1"
      "sm_open sm1 = Inr sm2" "opened sm2" "fs_limit sm2 = ?lim" "db_size (header sm2) = 10"
    by blast
  have "write_page sm2 ?pg = Inl OSError"
    by (rule write_page_beyond [OF c(3)])
       (simp_all add: c(4,5) file_limit_def new_page_def PAGE_SIZE_def)
  then show ?thesis using vp c by simp
qed

section \<open>Properties of the B+ tree\<close>

text \<open>
  C2.  On a tree of order 4, after the inserts of 10, 20 and 30 the root is still a
  leaf; after the insert of 40 the root is an internal node with one key and two
  children.  After the insert of 50, \<open>range_search(15, 45)\<close> returns the values b, c, d
  in this order, \<open>search(25)\<close> returns \<open>None\<close>, \<open>delete(30)\<close> returns \<open>True\<close> and
  \<open>search(30)\<close> then returns \<open>None\<close>.
\<close>

theorem concrete_scenario:
  "map_option (\<lambda>t. is_leaf (heap t (root t)))
     (insert_all (new_tree 4) [(KInt 10, ''a''), (KInt 20, ''b''), (KInt 30, ''c'')])
     = Some True
   \<and> map_option (\<lambda>t. (is_leaf (heap t (root t)), length (keys (heap t (root t))),
                       length (children (heap t (root t)))))
     (insert_all (new_tree 4)
        [(KInt 10, ''a''), (KInt 20, ''b''), (KInt 30, ''c''), (KInt 40, ''d'')])
     = Some (False, 1, 2)
   \<and> Option.bind (insert_all (new_tree 4)
        [(KInt 10, ''a''), (KInt 20, ''b''), (KInt 30, ''c''), (KInt 40, ''d''),
         (KInt 50, ''e'')])
      (\<lambda>t. range_search t (KInt 15) (KInt 45)) = Some [''b'', ''c'', ''d'']
   \<and> Option.bind (insert_all (new_tree 4)
        [(KInt 10, ''a''), (KInt 20, ''b''), (KInt 30, ''c''), (KInt 40, ''d''),
         (KInt 50, ''e'')])
      (\<lambda>t. search t (KInt 25)) = Some None
   \<and> Option.bind (Option.bind (insert_all (new_tree 4)
        [(KInt 10, ''a''), (KInt 20, ''b''), (KInt 30, ''c''), (KInt 40, ''d''),
         (KInt 50, ''e'')])
      (\<lambda>t. delete t (KInt 30)))
      (\<lambda>(t, b). map_option (\<lambda>r. (b, r)) (search t (KInt 30))) = Some (True, None)"
  by code_simp

text \<open>
  C3.  Four inserts with the key 5 into a tree of order 4 split the root leaf in two
  leaves that both hold the key 5.  The descent for the start key 5 goes to the right
  leaf, so \<open>range_search(5, 6)\<close> returns the two values of the right leaf only, although
  all four values have their key in the range.
\<close>

theorem range_search_after_duplicates:
  "Option.bind (insert_all (new_tree 4)
        [(KInt 5, ''a''), (KInt 5, ''b''), (KInt 5, ''c''), (KInt 5, ''d'')])
      (\<lambda>t. range_search t (KInt 5) (KInt 6)) = Some [''b'', ''a'']"
  by code_simp

text \<open>
  After two more inserts, of 5 and 6, the second split puts the new leaf before its left
  half in the parent: the key 6 is in the tree, and \<open>search(6)\<close> returns \<open>None\<close>.
\<close>

lemma search_after_duplicates:
  "Option.bind (insert_all (new_tree 4)
        [(KInt 5, ''a''), (KInt 5, ''b''), (KInt 5, ''c''), (KInt 5, ''d''), (KInt 5, ''e''),
         (KInt 6, ''f'')])
      (\<lambda>t. search t (KInt 6)) = Some None"
  by code_simp

text \<open>
  C4.  After two inserts with the key 1, the first \<open>delete(1)\<close> returns \<open>True\<close> and
  removes the entry of the second insert and the key from \<open>key_to_value\<close>.  The key is
  still in the tree (\<open>search(1)\<close> returns the value a), and the second \<open>delete(1)\<close>
  returns \<open>False\<close> and removes nothing: \<open>search(1)\<close> still returns a.
\<close>

theorem delete_after_duplicates:
  "Option.bind (Option.bind (insert_all (new_tree 4) [(KInt 1, ''a''), (KInt 1, ''b'')])
      (\<lambda>t. delete t (KInt 1)))
      (\<lambda>(t1, b1). Option.bind (delete t1 (KInt 1))
         (\<lambda>(t2, b2). Option.bind (search t1 (KInt 1))
            (\<lambda>r1. map_option (\<lambda>r2. (b1, r1, b2, r2)) (search t2 (KInt 1)))))
   = Some (True, Some ''a'', False, Some ''a'')"
  by code_simp

text \<open>
  The claim C5 as the specification words it fails after two inserts with the same key:
  the root leaf then holds the key twice, so its keys are not strictly increasing.
\<close>

theorem duplicate_keys_counterexample:
  "map_option (\<lambda>t. (keys (heap t (root t)), node_inv (order t) (heap t (root t))))
     (insert_all (new_tree 4) [(KInt 1, ''a''), (KInt 1, ''b'')])
   = Some ([[0, 0, 0, 0, 0, 0, 0, 1], [0, 0, 0, 0, 0, 0, 0, 1]], False)"
  by code_simp

section \<open>The invariants of the tree when no key is inserted twice\<close>

subsection \<open>Ordered trees\<close>

lemma lob_simps [simp]: "lob lo ks 0 = lo" "lob lo (k # ks) (Suc i) = lob (Some k) ks i"
  by (simp_all add: lob_def nth_Cons split: nat.split)

lemma hib_simps [simp]: "hib hi [] i = hi" "hib hi (k # ks) 0 = Some k"
    "hib hi (k # ks) (Suc i) = hib hi ks i"
  by (simp_all add: hib_def)

lemma ol_length: "ol P lo hi ks ts \<Longrightarrow> length ts = Suc (length ks)"
  by (induction P lo hi ks ts rule: ol.induct) auto

lemma ol_Nil [simp]: "ol P lo hi [] ts \<longleftrightarrow> (\<exists>t. ts = [t] \<and> P lo hi t)"
proof (cases ts)
  case Nil
  then show ?thesis by simp
next
  case (Cons t ts')
  then show ?thesis by (cases ts') auto
qed

lemma ol_Cons [simp]:
  "ol P lo hi (k # ks) ts \<longleftrightarrow>
     (\<exists>t ts'. ts = t # ts' \<and> P lo (Some k) t \<and> ol P (Some k) hi ks ts')"
  by (cases ts) auto

lemma ol_mid:
  "ol P lo hi ks (ls @ c # rs) \<Longrightarrow> P (lob lo ks (length ls)) (hib hi ks (length ls)) c"
proof (induction ls arbitrary: lo ks)
  case Nil
  then show ?case by (cases ks; cases rs) auto
next
  case (Cons l ls)
  then show ?case by (cases ks) auto
qed

lemma ol_replace:
  "ol P lo hi ks (ls @ c # rs) \<Longrightarrow> P (lob lo ks (length ls)) (hib hi ks (length ls)) c'
   \<Longrightarrow> ol P lo hi ks (ls @ c' # rs)"
proof (induction ls arbitrary: lo ks)
  case Nil
  then show ?case by (cases ks; cases rs) auto
next
  case (Cons l ls)
  then show ?case by (cases ks) auto
qed

lemma ol_insert:
  "ol P lo hi ks (ls @ c # rs) \<Longrightarrow> P (lob lo ks (length ls)) (Some k) cl
   \<Longrightarrow> P (Some k) (hib hi ks (length ls)) cr
   \<Longrightarrow> ol P lo hi (list_insert (length ls) k ks) (ls @ cl # cr # rs)"
proof (induction ls arbitrary: lo ks)
  case Nil
  then show ?case by (cases ks; cases rs) (auto simp: list_insert_def)
next
  case (Cons l ls)
  then show ?case by (cases ks) (auto simp: list_insert_def)
qed

lemma ol_split:
  "ol P lo hi ks ts \<Longrightarrow> mid < length ks
   \<Longrightarrow> ol P lo (Some (ks ! mid)) (take mid ks) (take (Suc mid) ts)
       \<and> ol P (Some (ks ! mid)) hi (drop (Suc mid) ks) (drop (Suc mid) ts)"
proof (induction P lo hi ks ts arbitrary: mid rule: ol.induct)
  case (2 P lo hi k ks t ts)
  show ?case
  proof (cases mid)
    case 0
    then show ?thesis using 2 by simp
  next
    case (Suc m)
    then show ?thesis using 2 by simp
  qed
qed simp_all

lemma child_index_le: "child_index ks kb \<le> length ks"
  by (induction ks) auto

lemma child_index_lo: "lo_le lo kb \<Longrightarrow> lo_le (lob lo ks (child_index ks kb)) kb"
  by (induction ks arbitrary: lo) (auto simp: lo_le_def)

lemma child_index_hi: "hi_gt hi kb \<Longrightarrow> hi_gt (hib hi ks (child_index ks kb)) kb"
  by (induction ks) (auto simp: hi_gt_def)

lemma blt_trans: "blt lo (Some k) \<Longrightarrow> blt (Some k) hi \<Longrightarrow> blt lo hi"
  by (auto simp: blt_def hi_gt_def split: option.splits)

lemma ol_blt:
  assumes "\<And>l u t. t \<in> set ts \<Longrightarrow> P l u t \<Longrightarrow> blt l u"
  shows "ol P lo hi ks ts \<Longrightarrow> blt lo hi"
  using assms
proof (induction ks arbitrary: lo ts)
  case Nil
  then show ?case by auto
next
  case (Cons k ks)
  then obtain t ts' where ts: "ts = t # ts'" "P lo (Some k) t" "ol P (Some k) hi ks ts'"
    by auto
  have rl: "\<And>l u x. x \<in> set ts \<Longrightarrow> P l u x \<Longrightarrow> blt l u" using Cons.prems by blast
  have "blt lo (Some k)" using rl [of t lo "Some k"] ts by simp
  moreover have "blt (Some k) hi" by (rule Cons.IH [OF ts(3)]) (use rl ts(1) in auto)
  ultimately show ?case by (rule blt_trans)
qed

lemma ord_blt: "ord lo hi T \<Longrightarrow> blt lo hi"
proof (induction T arbitrary: lo hi)
  case (ALeaf a ks vs)
  then show ?case by simp
next
  case (ANode a ks ts)
  show ?case
    by (rule ol_blt [of ts ord lo hi ks]) (use ANode in auto)
qed

text \<open>The separators of an ordered node are strictly increasing and strictly inside the
  bounds.\<close>

lemma ol_keys:
  assumes "\<And>l u t. t \<in> set ts \<Longrightarrow> P l u t \<Longrightarrow> blt l u"
  shows "ol P lo hi ks ts \<Longrightarrow>
     sorted_wrt (<) ks \<and> (\<forall>k \<in> set ks. blt lo (Some k) \<and> blt (Some k) hi)"
  using assms
proof (induction ks arbitrary: lo ts)
  case Nil
  then show ?case by simp
next
  case (Cons k ks)
  then obtain t ts' where ts: "ts = t # ts'" "P lo (Some k) t" "ol P (Some k) hi ks ts'"
    by auto
  have rl: "\<And>l u x. x \<in> set ts \<Longrightarrow> P l u x \<Longrightarrow> blt l u" using Cons.prems by blast
  have b1: "blt lo (Some k)" using rl [of t lo "Some k"] ts by simp
  have b2: "blt (Some k) hi" by (rule ol_blt [OF _ ts(3)]) (use rl ts(1) in auto)
  have ih: "sorted_wrt (<) ks \<and> (\<forall>k' \<in> set ks. blt (Some k) (Some k') \<and> blt (Some k') hi)"
    by (rule Cons.IH [OF ts(3)]) (use rl ts(1) in auto)
  have "\<forall>k' \<in> set ks. blt lo (Some k')" using ih b1 blt_trans by blast
  then show ?case using ih b1 b2 by (auto simp: blt_def hi_gt_def)
qed

lemma ord_node_keys:
  "ord lo hi (ANode a ks ts) \<Longrightarrow>
     sorted_wrt (<) ks \<and> (\<forall>k \<in> set ks. blt lo (Some k) \<and> blt (Some k) hi)
     \<and> length ts = Suc (length ks)"
  using ol_keys [of ts ord lo hi ks] ord_blt ol_length [of ord lo hi ks ts] by auto

text \<open>The keys of the leaves of an ordered tree, from left to right, are strictly
  increasing and inside the bounds.\<close>

lemma lo_le_trans: "blt lo (Some k) \<Longrightarrow> lo_le (Some k) x \<Longrightarrow> lo_le lo x"
  by (auto simp: blt_def hi_gt_def lo_le_def split: option.splits)

lemma hi_gt_trans: "hi_gt (Some k) x \<Longrightarrow> blt (Some k) hi \<Longrightarrow> hi_gt hi x"
  by (auto simp: blt_def hi_gt_def split: option.splits)

lemma ol_lkeys:
  assumes "\<And>l u t. t \<in> set ts \<Longrightarrow> ord l u t \<Longrightarrow>
             sorted_wrt (<) (lkeys t) \<and> (\<forall>k \<in> set (lkeys t). lo_le l k \<and> hi_gt u k)"
  shows "ol ord lo hi ks ts \<Longrightarrow>
     sorted_wrt (<) (concat (map lkeys ts))
     \<and> (\<forall>k \<in> set (concat (map lkeys ts)). lo_le lo k \<and> hi_gt hi k)"
  using assms
proof (induction ks arbitrary: lo ts)
  case Nil
  then show ?case by auto
next
  case (Cons k ks)
  then obtain t ts' where ts: "ts = t # ts'" "ord lo (Some k) t" "ol ord (Some k) hi ks ts'"
    by auto
  have rl: "\<And>l u x. x \<in> set ts \<Longrightarrow> ord l u x \<Longrightarrow>
             sorted_wrt (<) (lkeys x) \<and> (\<forall>k \<in> set (lkeys x). lo_le l k \<and> hi_gt u k)"
    using Cons.prems by blast
  have t: "sorted_wrt (<) (lkeys t)" "\<forall>x \<in> set (lkeys t). lo_le lo x \<and> hi_gt (Some k) x"
    using rl [of t lo "Some k"] ts by simp_all
  have "sorted_wrt (<) (concat (map lkeys ts'))
      \<and> (\<forall>x \<in> set (concat (map lkeys ts')). lo_le (Some k) x \<and> hi_gt hi x)"
    by (rule Cons.IH [OF ts(3)]) (use rl ts(1) in auto)
  then have ih: "sorted_wrt (<) (concat (map lkeys ts'))"
      "\<forall>x \<in> set (concat (map lkeys ts')). lo_le (Some k) x \<and> hi_gt hi x"
    by simp_all
  have b1: "blt lo (Some k)" using ord_blt [OF ts(2)] .
  have b2: "blt (Some k) hi" using ol_blt [OF _ ts(3)] ord_blt by blast
  have "\<forall>x \<in> set (lkeys t). \<forall>y \<in> set (concat (map lkeys ts')). x < y"
    using t(2) ih(2) by (fastforce simp: hi_gt_def lo_le_def)
  moreover have "\<forall>x \<in> set (lkeys t). hi_gt hi x" using t(2) b2 hi_gt_trans by blast
  moreover have "\<forall>x \<in> set (concat (map lkeys ts')). lo_le lo x"
    using ih(2) b1 lo_le_trans by blast
  ultimately show ?case using t ih by (auto simp: ts(1) sorted_wrt_append)
qed

lemma ord_lkeys:
  "ord lo hi T \<Longrightarrow>
     sorted_wrt (<) (lkeys T) \<and> (\<forall>k \<in> set (lkeys T). lo_le lo k \<and> hi_gt hi k)"
proof (induction T arbitrary: lo hi)
  case (ALeaf a ks vs)
  then show ?case by simp
next
  case (ANode a ks ts)
  show ?case
    using ol_lkeys [of ts lo hi ks] ANode by simp
qed

lemma insert_index_eq:
  "sorted_wrt (<) ks \<Longrightarrow> i \<le> length ks \<Longrightarrow> blt (lob lo ks i) (Some k)
   \<Longrightarrow> blt (Some k) (hib hi ks i) \<Longrightarrow> insert_index ks k = i"
proof (induction ks arbitrary: i lo)
  case Nil
  then show ?case by simp
next
  case (Cons k0 ks)
  show ?case
  proof (cases i)
    case 0
    then show ?thesis using Cons.prems by (auto simp: blt_def hi_gt_def)
  next
    case (Suc j)
    have "k0 < k"
    proof (cases j)
      case 0
      then show ?thesis using Cons.prems Suc by (simp add: blt_def hi_gt_def)
    next
      case (Suc j')
      then have "ks ! j' < k" using Cons.prems \<open>i = Suc j\<close> by (simp add: blt_def hi_gt_def lob_def)
      moreover have "k0 < ks ! j'" using Cons.prems \<open>i = Suc j\<close> Suc by simp
      ultimately show ?thesis by simp
    qed
    moreover have "insert_index ks k = j"
      by (rule Cons.IH [of j "Some k0"]) (use Cons.prems Suc in auto)
    ultimately show ?thesis using Suc by simp
  qed
qed

lemma insert_index_le: "insert_index ks k \<le> length ks"
  by (induction ks) auto

text \<open>Inserting a new key into a strictly increasing list at \<open>insert_index\<close>.\<close>

lemma insert_index_sorted:
  "sorted_wrt (<) ks \<Longrightarrow> k \<notin> set ks
   \<Longrightarrow> sorted_wrt (<) (list_insert (insert_index ks k) k ks)"
proof (induction ks)
  case Nil
  then show ?case by (simp add: list_insert_def)
next
  case (Cons k0 ks)
  then show ?case by (auto simp: list_insert_def dest: in_set_takeD in_set_dropD)
qed

lemma set_list_insert: "set (list_insert i x xs) = insert x (set xs)"
proof -
  have "set (take i xs) \<union> set (drop i xs) = set xs"
    by (metis append_take_drop_id set_append)
  then show ?thesis by (auto simp: list_insert_def)
qed

lemma length_list_insert: "length (list_insert i x xs) = Suc (length xs)"
  by (simp add: list_insert_def)

subsection \<open>A subtree in its context\<close>

lemma plug_append: "plug (fs @ gs) t = plug gs (plug fs t)"
  by (induction fs arbitrary: t) auto

lemma top_in_addrs: "taddr t \<in> set (addrs t)"
  by (cases t) auto

lemma leaves_subset_addrs: "set (leaves t) \<subseteq> set (addrs t)"
  by (induction t) auto

lemma realizes_upd: "a \<notin> set (addrs T) \<Longrightarrow> realizes (h(a := n)) T = realizes h T"
  by (induction T) auto

lemma realizes_cong: "(\<And>a. a \<in> set (addrs T) \<Longrightarrow> h' a = h a) \<Longrightarrow> realizes h' T = realizes h T"
  by (induction T) (auto simp: top_in_addrs)

lemma ctx_realizes_cong:
  "(\<And>a. a \<in> set (ctx_addrs fs) \<Longrightarrow> h' a = h a) \<Longrightarrow> ctx_realizes h' fs c = ctx_realizes h fs c"
proof (induction fs arbitrary: c)
  case Nil
  show ?case by simp
next
  case (Cons f fs)
  obtain a ks ls rs where f: "f = (a, ks, ls, rs)" by (cases f) auto
  have "\<forall>t \<in> set (ls @ rs). realizes h' t = realizes h t"
    using Cons.prems by (intro ballI realizes_cong) (auto simp: f)
  moreover have "ctx_realizes h' fs a = ctx_realizes h fs a"
    using Cons.prems by (intro Cons.IH) (auto simp: f)
  moreover have "h' a = h a" using Cons.prems by (simp add: f)
  ultimately show ?case by (auto simp: f)
qed

lemma set_addrs_plug: "set (addrs (plug fs t)) = set (ctx_addrs fs) \<union> set (addrs t)"
  by (induction fs arbitrary: t) auto

lemma distinct_addrs_plug:
  "distinct (addrs (plug fs t)) \<longleftrightarrow>
     distinct (ctx_addrs fs) \<and> distinct (addrs t) \<and> set (ctx_addrs fs) \<inter> set (addrs t) = {}"
proof (induction fs arbitrary: t)
  case Nil
  show ?case by simp
next
  case (Cons f fs)
  obtain a ks ls rs where f: "f = (a, ks, ls, rs)" by (cases f) auto
  show ?case
    unfolding f plug.simps Cons.IH
    by (auto simp: set_addrs_plug)
qed

lemma realizes_plug:
  "realizes h (plug fs t) \<longleftrightarrow> ctx_realizes h fs (taddr t) \<and> realizes h t"
proof (induction fs arbitrary: t)
  case Nil
  show ?case by simp
next
  case (Cons f fs)
  obtain a ks ls rs where f: "f = (a, ks, ls, rs)" by (cases f) auto
  show ?case unfolding f plug.simps Cons.IH by auto
qed

lemma small_plug: "small n (plug fs t) \<longleftrightarrow> ctx_small n fs \<and> small n t"
proof (induction fs arbitrary: t)
  case Nil
  show ?case by simp
next
  case (Cons f fs)
  obtain a ks ls rs where f: "f = (a, ks, ls, rs)" by (cases f) auto
  show ?case unfolding f plug.simps Cons.IH by auto
qed

lemma top_plug_cong: "taddr t = taddr t' \<Longrightarrow> taddr (plug fs t) = taddr (plug fs t')"
  by (induction fs arbitrary: t t') auto

lemma leaves_plug_cong: "leaves t = leaves t' \<Longrightarrow> leaves (plug fs t) = leaves (plug fs t')"
  by (induction fs arbitrary: t t') auto

lemma leaves_plug: "\<exists>L R. \<forall>t. leaves (plug fs t) = L @ leaves t @ R"
proof (induction fs)
  case Nil
  have "\<forall>t. leaves (plug [] t) = [] @ leaves t @ []" by simp
  then show ?case by blast
next
  case (Cons f fs)
  obtain a ks ls rs where f: "f = (a, ks, ls, rs)" by (cases f) auto
  obtain L R where LR: "\<forall>t. leaves (plug fs t) = L @ leaves t @ R" using Cons by blast
  have "\<forall>t. leaves (plug (f # fs) t)
          = (L @ concat (map leaves ls)) @ leaves t @ (concat (map leaves rs) @ R)"
    by (simp add: f LR)
  then show ?case by blast
qed

lemma ord_plug:
  "ord glo ghi (plug fs t) \<Longrightarrow>
     \<exists>lo hi. ord lo hi t \<and> (\<forall>t'. ord lo hi t' \<longrightarrow> ord glo ghi (plug fs t'))"
proof (induction fs arbitrary: t)
  case Nil
  then show ?case by auto
next
  case (Cons f fs)
  obtain a ks ls rs where f: "f = (a, ks, ls, rs)" by (cases f) auto
  from Cons.prems have "ord glo ghi (plug fs (ANode a ks (ls @ t # rs)))" by (simp add: f)
  from Cons.IH [OF this] obtain lo hi where
    n: "ord lo hi (ANode a ks (ls @ t # rs))"
    and r: "\<forall>t'. ord lo hi t' \<longrightarrow> ord glo ghi (plug fs t')" by blast
  let ?lo = "lob lo ks (length ls)" and ?hi = "hib hi ks (length ls)"
  have "ord ?lo ?hi t" using n ol_mid by fastforce
  moreover have "ord glo ghi (plug (f # fs) t')" if "ord ?lo ?hi t'" for t'
  proof -
    have "ord lo hi (ANode a ks (ls @ t' # rs))"
      using n that ol_replace [of ord lo hi ks ls t rs t'] by simp
    then show ?thesis using r by (simp add: f)
  qed
  ultimately show ?case by blast
qed

subsection \<open>The parent of a node and the descent to a leaf\<close>

lemma first_parent_all_none:
  "(\<And>c. c \<in> set cs \<Longrightarrow> f c = Some None) \<Longrightarrow> first_parent f cs = Some None"
  by (induction cs) auto

lemma first_parent_found:
  "(\<And>c. c \<in> set xs \<Longrightarrow> f c = Some None) \<Longrightarrow> f c = Some (Some p)
   \<Longrightarrow> first_parent f (xs @ c # ys) = Some (Some p)"
  by (induction xs) auto

lemma in_set_tl: "x \<in> set (tl xs) \<Longrightarrow> x \<in> set xs"
  by (cases xs) auto

lemma find_parent_none:
  "realizes h T \<Longrightarrow> target \<notin> set (tl (addrs T)) \<Longrightarrow> find_parent h (taddr T) target = Some None"
proof (induction T)
  case (ALeaf a ks vs)
  then show ?case by (subst find_parent.simps) simp
next
  case (ANode a ks ts)
  have nin: "target \<notin> set (map taddr ts)"
    using ANode.prems(2) top_in_addrs by fastforce
  have "find_parent h (taddr t) target = Some None" if "t \<in> set ts" for t
  proof -
    have "target \<notin> set (addrs t)" using ANode.prems(2) that by auto
    then have "target \<notin> set (tl (addrs t))" by (auto dest: in_set_tl)
    then show ?thesis using ANode.IH [OF that] ANode.prems(1) that by simp
  qed
  then have "first_parent (\<lambda>child. find_parent h child target) (map taddr ts) = Some None"
    by (intro first_parent_all_none) auto
  then show ?case
    using ANode.prems(1) nin by (subst find_parent.simps) simp
qed

lemma plug_snoc: "plug (fs @ [(a, ks, ls, rs)]) t = ANode a ks (ls @ plug fs t # rs)"
  by (simp add: plug_append)

lemma top_plug_in_ctx: "fs \<noteq> [] \<Longrightarrow> taddr (plug fs t) \<in> set (ctx_addrs fs)"
proof (induction fs arbitrary: t)
  case Nil
  then show ?case by simp
next
  case (Cons f fs)
  obtain a ks ls rs where f: "f = (a, ks, ls, rs)" by (cases f) auto
  show ?case
  proof (cases "fs = []")
    case True
    then show ?thesis by (simp add: f)
  next
    case False
    then show ?thesis using Cons.IH [OF False] by (simp add: f)
  qed
qed

lemma find_parent_plug:
  "realizes h (plug fs t) \<Longrightarrow> distinct (addrs (plug fs t)) \<Longrightarrow> fs \<noteq> []
   \<Longrightarrow> find_parent h (taddr (plug fs t)) (taddr t) = Some (Some (fst (hd fs)))"
proof (induction fs rule: rev_induct)
  case Nil
  then show ?case by simp
next
  case (snoc f fs)
  obtain a ks ls rs where f: "f = (a, ks, ls, rs)" by (cases f) auto
  let ?c = "plug fs t"
  have pl: "plug (fs @ [f]) t = ANode a ks (ls @ ?c # rs)" by (simp add: f plug_snoc)
  have r: "\<not> is_leaf (h a)" "children (h a) = map taddr ls @ taddr ?c # map taddr rs"
      "\<forall>x \<in> set (ls @ rs). realizes h x" "realizes h ?c"
    using snoc.prems(1) unfolding pl by auto
  have d: "distinct (a # concat (map addrs ls) @ addrs ?c @ concat (map addrs rs))"
    using snoc.prems(2) unfolding pl by simp
  show ?case
  proof (cases "fs = []")
    case True
    then show ?thesis
      using r by (subst find_parent.simps) (simp add: f)
  next
    case False
    have tin: "taddr t \<in> set (addrs ?c)" by (simp add: set_addrs_plug top_in_addrs)
    have dc: "distinct (addrs ?c)" using d by simp
    have tne: "taddr t \<noteq> taddr ?c"
      using dc top_plug_in_ctx [OF False, of t] top_in_addrs [of t]
      by (auto simp: distinct_addrs_plug)
    have nls: "taddr t \<notin> set (concat (map addrs ls))" "taddr t \<notin> set (concat (map addrs rs))"
      using d tin by auto
    have nin: "taddr t \<notin> set (map taddr ls @ taddr ?c # map taddr rs)"
      using nls tne top_in_addrs by fastforce
    have ih: "find_parent h (taddr ?c) (taddr t) = Some (Some (fst (hd fs)))"
      using snoc.IH [OF r(4) dc False] .
    have none: "find_parent h c (taddr t) = Some None" if "c \<in> set (map taddr ls)" for c
    proof -
      from that obtain x where x: "x \<in> set ls" "c = taddr x"
        unfolding set_map image_iff by blast
      have "taddr t \<notin> set (addrs x)" using nls(1) x(1) by auto
      then have "taddr t \<notin> set (tl (addrs x))" by (auto dest: in_set_tl)
      then show ?thesis using find_parent_none [of h x "taddr t"] r(3) x by simp
    qed
    have "first_parent (\<lambda>child. find_parent h child (taddr t))
            (map taddr ls @ taddr ?c # map taddr rs) = Some (Some (fst (hd fs)))"
      by (rule first_parent_found) (use none ih in auto)
    then show ?thesis
      using r nin False unfolding pl by (subst find_parent.simps) (simp del: set_append set_map)
  qed
qed

text \<open>The descent reaches the leaf whose bounds hold the key.\<close>

lemma find_leaf_plug:
  "realizes h T \<Longrightarrow> ord lo hi T \<Longrightarrow> lo_le lo kb \<Longrightarrow> hi_gt hi kb \<Longrightarrow>
     \<exists>fs a ks vs lo' hi'.
        T = plug fs (ALeaf a ks vs) \<and> find_leaf h (taddr T) kb = Some a
        \<and> ord lo' hi' (ALeaf a ks vs) \<and> lo_le lo' kb \<and> hi_gt hi' kb
        \<and> (\<forall>t'. ord lo' hi' t' \<longrightarrow> ord lo hi (plug fs t'))"
proof (induction T arbitrary: lo hi)
  case (ALeaf a ks vs)
  have "ALeaf a ks vs = plug [] (ALeaf a ks vs) \<and> find_leaf h (taddr (ALeaf a ks vs)) kb = Some a
        \<and> ord lo hi (ALeaf a ks vs) \<and> lo_le lo kb \<and> hi_gt hi kb
        \<and> (\<forall>t'. ord lo hi t' \<longrightarrow> ord lo hi (plug [] t'))"
    using ALeaf by (subst find_leaf.simps) simp
  then show ?case by blast
next
  case (ANode a ks ts)
  let ?i = "child_index ks kb"
  have len: "length ts = Suc (length ks)" using ANode.prems(2) ol_length by fastforce
  have i: "?i < length ts" using child_index_le [of ks kb] len by simp
  let ?c = "ts ! ?i" and ?ls = "take ?i ts" and ?rs = "drop (Suc ?i) ts"
  have ts: "ts = ?ls @ ?c # ?rs" using i by (simp add: id_take_nth_drop)
  have ll: "length ?ls = ?i" using i by simp
  have cin: "?c \<in> set ts" using i by simp
  let ?lo = "lob lo ks ?i" and ?hi = "hib hi ks ?i"
  have olc: "ol ord lo hi ks (?ls @ ?c # ?rs)" using ANode.prems(2) ts by simp
  have oc: "ord ?lo ?hi ?c" using ol_mid [OF olc] ll by simp
  have rc: "realizes h ?c" using ANode.prems(1) cin by simp
  from ANode.IH [OF cin rc oc child_index_lo [OF ANode.prems(3)] child_index_hi [OF ANode.prems(4)]]
  obtain fs b bks bvs lo' hi' where
    c: "?c = plug fs (ALeaf b bks bvs)" and fl: "find_leaf h (taddr ?c) kb = Some b"
    and ob: "ord lo' hi' (ALeaf b bks bvs)" and kb: "lo_le lo' kb" "hi_gt hi' kb"
    and rp: "\<forall>t'. ord lo' hi' t' \<longrightarrow> ord ?lo ?hi (plug fs t')"
    by blast
  let ?fs = "fs @ [(a, ks, ?ls, ?rs)]"
  have T: "ANode a ks ts = plug ?fs (ALeaf b bks bvs)"
    using ts c by (simp add: plug_snoc)
  have ch: "children (h a) ! ?i = taddr ?c" using ANode.prems(1) i by simp
  have f: "find_leaf h (taddr (ANode a ks ts)) kb = Some b"
    using ANode.prems(1) i fl ch by (subst find_leaf.simps) (simp add: Let_def)
  have rp': "ord lo hi (plug ?fs t')" if "ord lo' hi' t'" for t'
  proof -
    have "ord ?lo ?hi (plug fs t')" using rp that by blast
    then have "ol ord lo hi ks (?ls @ plug fs t' # ?rs)"
      using ol_replace [OF olc] ll by simp
    then show ?thesis by (simp add: plug_snoc)
  qed
  show ?case using T f ob kb rp' by blast
qed

subsection \<open>The bounds along a path, and a new root\<close>

lemma hole_ord_snoc:
  "hole_ord glo ghi (fs @ [(a, ks, ls, rs)]) lo hi \<longleftrightarrow>
     (\<exists>c. ol ord glo ghi ks (ls @ c # rs))
     \<and> hole_ord (lob glo ks (length ls)) (hib ghi ks (length ls)) fs lo hi"
proof (induction fs arbitrary: lo hi)
  case Nil
  show ?case by auto
next
  case (Cons f fs)
  obtain b bks bls brs where f: "f = (b, bks, bls, brs)" by (cases f) auto
  show ?case by (simp add: f Cons.IH)
qed

lemma hole_ord_plug:
  "hole_ord glo ghi fs lo hi \<Longrightarrow> ord lo hi t \<Longrightarrow> ord glo ghi (plug fs t)"
proof (induction fs arbitrary: lo hi t)
  case Nil
  then show ?case by simp
next
  case (Cons f fs)
  obtain a ks ls rs where f: "f = (a, ks, ls, rs)" by (cases f) auto
  from Cons.prems(1) obtain lo' hi' c where
    h: "hole_ord glo ghi fs lo' hi'" "ol ord lo' hi' ks (ls @ c # rs)"
       "lo = lob lo' ks (length ls)" "hi = hib hi' ks (length ls)"
    by (auto simp: f)
  have "ol ord lo' hi' ks (ls @ t # rs)"
    using ol_replace [OF h(2)] Cons.prems(2) h(3,4) by simp
  then have "ord lo' hi' (ANode a ks (ls @ t # rs))" by simp
  from Cons.IH [OF h(1) this] show ?case by (simp add: f)
qed

lemma ord_hole:
  "ord glo ghi (plug fs t) \<Longrightarrow> \<exists>lo hi. hole_ord glo ghi fs lo hi \<and> ord lo hi t"
proof (induction fs arbitrary: t)
  case Nil
  then show ?case by simp
next
  case (Cons f fs)
  obtain a ks ls rs where f: "f = (a, ks, ls, rs)" by (cases f) auto
  from Cons.prems have "ord glo ghi (plug fs (ANode a ks (ls @ t # rs)))" by (simp add: f)
  from Cons.IH [OF this] obtain lo' hi' where
    h: "hole_ord glo ghi fs lo' hi'" "ol ord lo' hi' ks (ls @ t # rs)" by auto
  have "ord (lob lo' ks (length ls)) (hib hi' ks (length ls)) t" using ol_mid [OF h(2)] .
  then have "hole_ord glo ghi (f # fs) (lob lo' ks (length ls)) (hib hi' ks (length ls))
      \<and> ord (lob lo' ks (length ls)) (hib hi' ks (length ls)) t"
    using h unfolding f by auto
  then show ?case by blast
qed

lemma insert_into_internal_finish:
  "insert_into_internal t p k l r = finish_internal (put_into_internal t p k r) p"
  by (subst insert_into_internal.simps)
     (simp add: finish_internal_def split_internal_def Let_def)

lemma split_internal_after_cut:
  "split_internal t node =
     (case cut_internal t node of None \<Rightarrow> None
      | Some (t2, pk, q) \<Rightarrow> after_cut t2 node pk q)"
  by (simp add: split_internal_def after_cut_def split: option.splits)

lemma leaves_is_leaf: "realizes h T \<Longrightarrow> a \<in> set (leaves T) \<Longrightarrow> is_leaf (h a)"
  by (induction T) auto

lemma make_root_ok:
  assumes o: "2 \<le> order t2"
    and rl: "realizes (heap t2) Yl" and rr: "realizes (heap t2) Yr"
    and rt: "taddr Yl = root t2"
    and d: "distinct (addrs Yl @ addrs Yr)"
    and b: "\<forall>a \<in> set (addrs Yl @ addrs Yr). a < next_addr t2"
    and ol: "ord None (Some pk) Yl" and orr: "ord (Some pk) None Yr"
    and sl: "small (order t2) Yl" and sr: "small (order t2) Yr"
  shows "after_cut t2 (taddr Yl) pk (taddr Yr) = Some (make_root t2 pk (taddr Yl) (taddr Yr))"
    and "done_ok t2 (leaves Yl @ leaves Yr) (make_root t2 pk (taddr Yl) (taddr Yr))"
proof -
  have "taddr Yl \<notin> set (tl (addrs Yl))"
    using d by (cases Yl) auto
  then have fp: "find_parent (heap t2) (root t2) (taddr Yl) = Some None"
    using find_parent_none [OF rl] rt by simp
  then show "after_cut t2 (taddr Yl) pk (taddr Yr) = Some (make_root t2 pk (taddr Yl) (taddr Yr))"
    by (simp add: after_cut_def)
  let ?r = "next_addr t2"
  let ?t' = "make_root t2 pk (taddr Yl) (taddr Yr)"
  let ?M = "ANode ?r [pk] [Yl, Yr]"
  have h': "heap ?t' = (heap t2)(?r := internal_node [pk] [taddr Yl, taddr Yr])"
    "root ?t' = ?r" "next_addr ?t' = Suc ?r" "order ?t' = order t2"
    "key_to_value ?t' = key_to_value t2"
    by (simp_all add: make_root_def Let_def)
  have nl: "?r \<notin> set (addrs Yl)" and nr: "?r \<notin> set (addrs Yr)" using b by auto
  have "realizes (heap ?t') ?M"
    using rl rr nl nr by (simp add: h' realizes_upd internal_node_def)
  moreover have "distinct (addrs ?M)" using d nl nr by simp
  moreover have "\<forall>a \<in> set (addrs ?M). a < next_addr ?t'"
    using b by (auto simp: h' less_Suc_eq)
  moreover have "ord None None ?M" using ol orr by simp
  moreover have "small (order ?t') ?M" using sl sr o by (simp add: h')
  ultimately have "wf_core ?t' ?M" by (simp add: wf_core_def h')
  moreover have "leaves ?M = leaves Yl @ leaves Yr" by simp
  moreover have "\<forall>a \<in> set (leaves Yl @ leaves Yr). heap ?t' a = heap t2 a"
    using nl nr leaves_subset_addrs [of Yl] leaves_subset_addrs [of Yr]
    by (auto simp: h')
  ultimately show "done_ok t2 (leaves Yl @ leaves Yr) ?t'"
    unfolding done_ok_def using h'(4,5) by blast
qed

subsection \<open>The promoted key in the parent\<close>

lemma done_ok_trans:
  "done_ok t2 Ls t' \<Longrightarrow> \<forall>a \<in> set Ls. heap t2 a = heap t a
   \<Longrightarrow> key_to_value t2 = key_to_value t \<Longrightarrow> order t2 = order t \<Longrightarrow> done_ok t Ls t'"
  by (auto simp: done_ok_def)

lemma pending_root:
  assumes "pending t2 [] Yl pk Yr"
  shows "after_cut t2 (taddr Yl) pk (taddr Yr) = Some (make_root t2 pk (taddr Yl) (taddr Yr))
         \<and> done_ok t2 (leaves Yl @ leaves Yr) (make_root t2 pk (taddr Yl) (taddr Yr))"
  using assms make_root_ok [of t2 Yl Yr pk]
  by (auto simp: pending_def)

lemma list_insert_children:
  "list_insert (Suc (length A)) q (map f A @ y # B) = map f A @ y # q # B"
  by (simp add: list_insert_def)

lemma pending_step:
  assumes p: "pending t2 ((gp, gks, gls, grs) # fs') Yl pk Yr"
  defines "t3 \<equiv> put_into_internal t2 gp pk (taddr Yr)"
    and "X' \<equiv> ANode gp (list_insert (length gls) pk gks) (gls @ Yl # Yr # grs)"
  shows "after_cut t2 (taddr Yl) pk (taddr Yr) = finish_internal t3 gp"
    and "almost t3 fs' X'"
    and "\<forall>a. a \<noteq> gp \<longrightarrow> heap t3 a = heap t2 a"
    and "key_to_value t3 = key_to_value t2" and "order t3 = order t2"
    and "\<not> is_leaf (heap t2 gp)"
proof -
  let ?fs = "(gp, gks, gls, grs) # fs'"
  have o: "2 \<le> order t2" and rz: "realizes (heap t2) (plug ?fs Yl)"
    and rr: "realizes (heap t2) Yr" and rt: "taddr (plug ?fs Yl) = root t2"
    and d: "distinct (addrs (plug ?fs Yl) @ addrs Yr)"
    and b: "\<forall>a \<in> set (addrs (plug ?fs Yl) @ addrs Yr). a < next_addr t2"
    and cs: "ctx_small (order t2) ?fs" and sl: "small (order t2) Yl"
    and sr: "small (order t2) Yr"
    using p by (simp_all add: pending_def)
  from p obtain lo hi where
    ho: "hole_ord None None ?fs lo hi" and ol: "ord lo (Some pk) Yl"
    and orr: "ord (Some pk) hi Yr"
    unfolding pending_def by blast
  from ho obtain lo_g hi_g c where
    hg: "hole_ord None None fs' lo_g hi_g" and og: "ol ord lo_g hi_g gks (gls @ c # grs)"
    and lo: "lo = lob lo_g gks (length gls)" and hi: "hi = hib hi_g gks (length gls)"
    by auto
  have cr: "ctx_realizes (heap t2) ?fs (taddr Yl)" and rl: "realizes (heap t2) Yl"
    using rz by (simp_all only: realizes_plug)
  have gpn: "\<not> is_leaf (heap t2 gp)" "keys (heap t2 gp) = gks"
      "children (heap t2 gp) = map taddr gls @ taddr Yl # map taddr grs"
      "\<forall>x \<in> set (gls @ grs). realizes (heap t2) x" "ctx_realizes (heap t2) fs' gp"
    using cr by simp_all
  show "\<not> is_leaf (heap t2 gp)" by (rule gpn(1))
  have dd: "distinct (ctx_addrs ?fs)" "distinct (addrs Yl)" "distinct (addrs Yr)"
      "set (ctx_addrs ?fs) \<inter> set (addrs Yl) = {}"
      "set (ctx_addrs ?fs) \<inter> set (addrs Yr) = {}"
      "set (addrs Yl) \<inter> set (addrs Yr) = {}"
    using d by (auto simp: distinct_addrs_plug set_addrs_plug)
  \<comment> \<open>the parent is found\<close>
  have fp: "find_parent (heap t2) (root t2) (taddr Yl) = Some (Some gp)"
    using find_parent_plug [OF rz, of ] d rt by simp
  then show "after_cut t2 (taddr Yl) pk (taddr Yr) = finish_internal t3 gp"
    by (simp add: after_cut_def t3_def insert_into_internal_finish)
  \<comment> \<open>the position in the parent\<close>
  have kg: "sorted_wrt (<) gks" using ol_keys [OF _ og] ord_blt by blast
  have lg: "length gls \<le> length gks" using ol_length [OF og] by simp
  have idx: "insert_index gks pk = length gls"
    using insert_index_eq [OF kg lg, of lo_g pk hi_g] ord_blt [OF ol] ord_blt [OF orr] lo hi
    by simp
  let ?n' = "(heap t2 gp)\<lparr>keys := list_insert (length gls) pk gks,
                children := map taddr gls @ taddr Yl # taddr Yr # map taddr grs\<rparr>"
  have h3: "heap t3 = (heap t2)(gp := ?n')"
    by (simp add: t3_def put_into_internal_def Let_def gpn idx list_insert_children)
  have t3: "root t3 = root t2" "next_addr t3 = next_addr t2" "order t3 = order t2"
      "key_to_value t3 = key_to_value t2"
    by (simp_all add: t3_def put_into_internal_def Let_def)
  show "key_to_value t3 = key_to_value t2" "order t3 = order t2" by (rule t3)+
  show "\<forall>a. a \<noteq> gp \<longrightarrow> heap t3 a = heap t2 a" by (simp add: h3)
  \<comment> \<open>the tree after the key and the right node were put into the parent\<close>
  have ngp_ctx: "gp \<notin> set (ctx_addrs fs')" using dd(1) by simp
  have ngp: "gp \<notin> set (addrs x)" if "x \<in> set (gls @ Yl # Yr # grs)" for x
    using that dd by auto
  have rX: "realizes (heap t3) X'"
    unfolding X'_def h3 using gpn rl rr ngp by (auto simp: realizes_upd)
  have rc: "ctx_realizes (heap t3) fs' gp"
    using gpn(5) ngp_ctx by (subst ctx_realizes_cong [of fs' _ "heap t2"]) (auto simp: h3)
  have r3: "realizes (heap t3) (plug fs' X')"
    using rX rc by (simp add: realizes_plug X'_def)
  have tp: "taddr (plug fs' X') = root t3"
    using rt top_plug_cong [of X' "ANode gp gks (gls @ Yl # grs)" fs']
    by (simp add: X'_def t3)
  have sa: "set (addrs (plug fs' X')) = set (addrs (plug ?fs Yl)) \<union> set (addrs Yr)"
    by (auto simp: set_addrs_plug X'_def)
  have d3: "distinct (addrs (plug fs' X'))"
    using dd by (auto simp: distinct_addrs_plug X'_def)
  have b3: "\<forall>a \<in> set (addrs (plug fs' X')). a < next_addr t3"
    using b sa by (auto simp: t3)
  have oX: "ord lo_g hi_g X'"
    unfolding X'_def ord.simps using ol_insert [OF og, of pk Yl Yr] ol orr lo hi by simp
  have o3: "ord None None (plug fs' X')" using hole_ord_plug [OF hg oX] .
  have s3: "ctx_small (order t3) fs'" using cs by (simp add: t3)
  have sc: "\<forall>x \<in> set (gls @ Yl # Yr # grs). small (order t3) x"
    using cs sl sr by (auto simp: t3)
  have lk: "int (length (list_insert (length gls) pk gks)) \<le> order t3"
    using cs by (simp add: t3 length_list_insert)
  show "almost t3 fs' X'"
    unfolding almost_def using o r3 tp d3 b3 o3 s3 sc lk by (auto simp: t3 X'_def)
qed

subsection \<open>The split of an internal node\<close>

lemma concat_take_drop:
  "concat (map f (take n xs)) @ concat (map f (drop n xs)) = concat (map f xs)"
  by (metis append_take_drop_id concat_append map_append)

lemma set_take_drop_addrs:
  "set (concat (map f (take n xs))) \<union> set (concat (map f (drop n xs))) = set (concat (map f xs))"
  using concat_take_drop [of f n xs] by (metis set_append)

lemma distinct_concat_take_drop:
  assumes "distinct (concat (map f xs))"
  shows "distinct (concat (map f (take n xs)))" "distinct (concat (map f (drop n xs)))"
    "set (concat (map f (take n xs))) \<inter> set (concat (map f (drop n xs))) = {}"
  using assms unfolding concat_take_drop [of f n xs, symmetric] by auto

lemma cut_internal_pending:
  assumes a: "almost t fs X"
    and ov: "int (length (keys (heap t (taddr X)))) \<ge> order t"
  shows "\<exists>t2 pk Yl Yr.
           cut_internal t (taddr X) = Some (t2, pk, taddr Yr) \<and> taddr Yl = taddr X
           \<and> pending t2 fs Yl pk Yr \<and> leaves Yl @ leaves Yr = leaves X
           \<and> (\<forall>a \<in> set (leaves (plug fs X)). heap t2 a = heap t a)
           \<and> key_to_value t2 = key_to_value t \<and> order t2 = order t"
proof -
  from a obtain p ks cs where X: "X = ANode p ks cs"
    and sc: "\<forall>c \<in> set cs. small (order t) c" and lk: "int (length ks) \<le> order t"
    unfolding almost_def by blast
  have o: "2 \<le> order t" and rz: "realizes (heap t) (plug fs X)"
    and rt: "taddr (plug fs X) = root t" and d: "distinct (addrs (plug fs X))"
    and b: "\<forall>a \<in> set (addrs (plug fs X)). a < next_addr t"
    and oM: "ord None None (plug fs X)" and cs: "ctx_small (order t) fs"
    using a by (simp_all add: almost_def)
  have cr: "ctx_realizes (heap t) fs p" and rX: "realizes (heap t) X"
    using rz by (simp_all add: realizes_plug X)
  have np: "\<not> is_leaf (heap t p)" "keys (heap t p) = ks" "children (heap t p) = map taddr cs"
      "\<forall>c \<in> set cs. realizes (heap t) c"
    using rX by (simp_all add: X)
  let ?mid = "length ks div 2" and ?q = "next_addr t"
  have len: "int (length ks) = order t" using ov lk np(2) by (simp add: X)
  have mid: "?mid < length ks" using len o by simp
  let ?n' = "(heap t p)\<lparr>keys := take ?mid ks, children := take (Suc ?mid) (map taddr cs)\<rparr>"
  define h2 where "h2 = (heap t)(?q := internal_node (drop (Suc ?mid) ks)
                                          (drop (Suc ?mid) (map taddr cs)), p := ?n')"
  let ?t2 = "t\<lparr>heap := h2, next_addr := Suc ?q\<rparr>"
  let ?Yl = "ANode p (take ?mid ks) (take (Suc ?mid) cs)"
  let ?Yr = "ANode ?q (drop (Suc ?mid) ks) (drop (Suc ?mid) cs)"
  have cut: "cut_internal t (taddr X) = Some (?t2, ks ! ?mid, taddr ?Yr)"
    using mid by (simp add: cut_internal_def Let_def X np h2_def)
  have dd: "distinct (ctx_addrs fs)" "distinct (addrs X)"
      "set (ctx_addrs fs) \<inter> set (addrs X) = {}"
    using d by (simp_all add: distinct_addrs_plug)
  have pin: "p \<in> set (addrs X)" by (simp add: X)
  have qf: "?q \<notin> set (addrs (plug fs X))" using b by auto
  have qX: "?q \<notin> set (addrs X)" "?q \<notin> set (ctx_addrs fs)"
    using qf by (simp_all add: set_addrs_plug)
  have pq: "p \<noteq> ?q" using qX pin by auto
  have pctx: "p \<notin> set (ctx_addrs fs)" using dd(3) pin by auto
  have dcs: "distinct (concat (map addrs cs))" "p \<notin> set (concat (map addrs cs))"
    using dd(2) by (simp_all add: X)
  have rch: "realizes h2 c" if "c \<in> set cs" for c
  proof -
    have "p \<notin> set (addrs c)" "?q \<notin> set (addrs c)"
      using that dcs(2) qX(1) by (auto simp: X)
    then show ?thesis using np(4) that by (simp add: realizes_upd h2_def)
  qed
  have h2p: "h2 p = ?n'" "h2 ?q = internal_node (drop (Suc ?mid) ks)
                                      (drop (Suc ?mid) (map taddr cs))"
    using pq by (simp_all add: h2_def)
  have rYl: "realizes h2 ?Yl"
    using np rch by (auto simp: h2p take_map dest: in_set_takeD)
  have rYr: "realizes h2 ?Yr"
    using rch by (auto simp: h2p internal_node_def drop_map dest: in_set_dropD)
  have rc2: "ctx_realizes h2 fs p"
    using cr pctx qX(2) by (subst ctx_realizes_cong [of fs _ "heap t"]) (auto simp: h2_def)
  have r2: "realizes (heap ?t2) (plug fs ?Yl)"
    using rc2 rYl by (simp add: realizes_plug)
  have tp: "taddr (plug fs ?Yl) = root ?t2"
    using rt top_plug_cong [of ?Yl X fs] by (simp add: X)
  have sX: "set (addrs ?Yl) \<union> set (addrs ?Yr) = insert ?q (set (addrs X))"
    using set_take_drop_addrs [of addrs "Suc ?mid" cs] by (auto simp: X)
  have dY: "distinct (addrs ?Yl @ addrs ?Yr)"
    using distinct_concat_take_drop [OF dcs(1), of "Suc ?mid"] dcs(2) qX(1) pq
      set_take_drop_addrs [of addrs "Suc ?mid" cs]
    by (auto simp: X)
  have d2: "distinct (addrs (plug fs ?Yl) @ addrs ?Yr)"
  proof -
    have "set (ctx_addrs fs) \<inter> (set (addrs ?Yl) \<union> set (addrs ?Yr)) = {}"
      unfolding sX using dd(3) qX(2) by auto
    then show ?thesis using dY dd(1) by (auto simp: distinct_addrs_plug set_addrs_plug)
  qed
  have b2: "\<forall>a \<in> set (addrs (plug fs ?Yl) @ addrs ?Yr). a < next_addr ?t2"
  proof -
    have "set (addrs (plug fs ?Yl) @ addrs ?Yr) = insert ?q (set (addrs (plug fs X)))"
      using sX by (auto simp: set_addrs_plug)
    then show ?thesis using b by (auto simp: less_Suc_eq)
  qed
  from ord_hole [OF oM] obtain lo hi where
    ho: "hole_ord None None fs lo hi" and oX: "ol ord lo hi ks cs" by (auto simp: X)
  have os: "ord lo (Some (ks ! ?mid)) ?Yl" "ord (Some (ks ! ?mid)) hi ?Yr"
    using ol_split [OF oX mid] by simp_all
  have sYl: "small (order ?t2) ?Yl"
    using sc mid len by (auto dest: in_set_takeD)
  have sYr: "small (order ?t2) ?Yr"
    using sc mid len by (auto dest: in_set_dropD)
  have pend: "pending ?t2 fs ?Yl (ks ! ?mid) ?Yr"
    unfolding pending_def using o r2 rYr tp d2 b2 ho os cs sYl sYr by auto
  have lv: "leaves ?Yl @ leaves ?Yr = leaves X"
    by (simp add: X concat_take_drop)
  have hl: "heap ?t2 a = heap t a" if "a \<in> set (leaves (plug fs X))" for a
  proof -
    have "is_leaf (heap t a)" using leaves_is_leaf [OF rz that] .
    then have "a \<noteq> p" using np(1) by auto
    moreover have "a \<noteq> ?q" using that qf leaves_subset_addrs by blast
    ultimately show ?thesis by (simp add: h2_def)
  qed
  have "cut_internal t (taddr X) = Some (?t2, ks ! ?mid, taddr ?Yr) \<and> taddr ?Yl = taddr X
           \<and> pending ?t2 fs ?Yl (ks ! ?mid) ?Yr \<and> leaves ?Yl @ leaves ?Yr = leaves X
           \<and> (\<forall>a \<in> set (leaves (plug fs X)). heap ?t2 a = heap t a)
           \<and> key_to_value ?t2 = key_to_value t \<and> order ?t2 = order t"
    using cut pend lv hl by (simp add: X)
  then show ?thesis by blast
qed

lemma finish_internal_ok:
  "almost t fs X \<Longrightarrow>
     \<exists>t'. finish_internal t (taddr X) = Some t' \<and> done_ok t (leaves (plug fs X)) t'"
proof (induction fs arbitrary: t X)
  case Nil
  show ?case
  proof (cases "int (length (keys (heap t (taddr X)))) \<ge> order t")
    case False
    from Nil obtain p ks cs where X: "X = ANode p ks cs" unfolding almost_def by blast
    have "wf_core t X"
      using Nil False unfolding almost_def wf_core_def by (auto simp: X)
    then have "done_ok t (leaves (plug [] X)) t" by (auto simp: done_ok_def)
    then show ?thesis using False by (simp add: finish_internal_def)
  next
    case True
    from cut_internal_pending [OF Nil True] obtain t2 pk Yl Yr where
      c: "cut_internal t (taddr X) = Some (t2, pk, taddr Yr)" "taddr Yl = taddr X"
         "pending t2 [] Yl pk Yr" "leaves Yl @ leaves Yr = leaves X"
         "\<forall>a \<in> set (leaves (plug [] X)). heap t2 a = heap t a"
         "key_to_value t2 = key_to_value t" "order t2 = order t"
      by blast
    have f: "finish_internal t (taddr X) = after_cut t2 (taddr Yl) pk (taddr Yr)"
      using True c(1,2) by (simp add: finish_internal_def split_internal_after_cut)
    from pending_root [OF c(3)] have
      r: "after_cut t2 (taddr Yl) pk (taddr Yr) = Some (make_root t2 pk (taddr Yl) (taddr Yr))"
         "done_ok t2 (leaves X) (make_root t2 pk (taddr Yl) (taddr Yr))"
      using c(4) by simp_all
    have "done_ok t (leaves (plug [] X)) (make_root t2 pk (taddr Yl) (taddr Yr))"
      using done_ok_trans [OF r(2)] c(5,6,7) by simp
    then show ?thesis using f r(1) by simp
  qed
next
  case (Cons f fs')
  obtain gp gks gls grs where f: "f = (gp, gks, gls, grs)" by (cases f) auto
  from Cons.prems obtain p ks cs where X: "X = ANode p ks cs" unfolding almost_def by blast
  have rz: "realizes (heap t) (plug (f # fs') X)" using Cons.prems by (simp add: almost_def)
  show ?case
  proof (cases "int (length (keys (heap t (taddr X)))) \<ge> order t")
    case False
    have "realizes (heap t) X" using rz by (simp add: realizes_plug)
    then have "keys (heap t p) = ks" by (simp add: X)
    then have "small (order t) X"
      using Cons.prems False unfolding almost_def by (auto simp: X)
    then have "wf_core t (plug (f # fs') X)"
      using Cons.prems unfolding almost_def wf_core_def by (simp add: small_plug)
    then have "done_ok t (leaves (plug (f # fs') X)) t" by (auto simp: done_ok_def)
    then show ?thesis using False by (simp add: finish_internal_def)
  next
    case True
    from cut_internal_pending [OF Cons.prems True] obtain t2 pk Yl Yr where
      c: "cut_internal t (taddr X) = Some (t2, pk, taddr Yr)" "taddr Yl = taddr X"
         "pending t2 (f # fs') Yl pk Yr" "leaves Yl @ leaves Yr = leaves X"
         "\<forall>a \<in> set (leaves (plug (f # fs') X)). heap t2 a = heap t a"
         "key_to_value t2 = key_to_value t" "order t2 = order t"
      by blast
    have fi: "finish_internal t (taddr X) = after_cut t2 (taddr Yl) pk (taddr Yr)"
      using True c(1,2) by (simp add: finish_internal_def split_internal_after_cut)
    let ?t3 = "put_into_internal t2 gp pk (taddr Yr)"
    let ?X' = "ANode gp (list_insert (length gls) pk gks) (gls @ Yl # Yr # grs)"
    note ps = pending_step [OF c(3) [unfolded f]]
    from Cons.IH [OF ps(2)] obtain t' where
      t': "finish_internal ?t3 (taddr ?X') = Some t'" "done_ok ?t3 (leaves (plug fs' ?X')) t'"
      by blast
    have lv: "leaves (plug fs' ?X') = leaves (plug (f # fs') X)"
      unfolding f plug.simps by (rule leaves_plug_cong) (simp add: c(4) [symmetric])
    have hl: "heap ?t3 a = heap t a" if "a \<in> set (leaves (plug (f # fs') X))" for a
    proof -
      have "is_leaf (heap t a)" using leaves_is_leaf [OF rz that] .
      then have "is_leaf (heap t2 a)" using c(5) that by simp
      then have "a \<noteq> gp" using ps(6) by auto
      then show ?thesis using ps(3) c(5) that by simp
    qed
    have "done_ok t (leaves (plug (f # fs') X)) t'"
      using done_ok_trans [OF t'(2) [unfolded lv]] hl ps(4,5) c(6,7) by simp
    then show ?thesis using fi ps(1) t'(1) by simp
  qed
qed

subsection \<open>The leaves and their chain\<close>

lemma after_cut_ok:
  assumes p: "pending t2 fs Yl pk Yr"
  shows "\<exists>t'. after_cut t2 (taddr Yl) pk (taddr Yr) = Some t'
              \<and> done_ok t2 (leaves (plug fs (ANode x [pk] [Yl, Yr]))) t'"
proof (cases fs)
  case Nil
  then show ?thesis using pending_root [of t2 Yl pk Yr] p by simp
next
  case (Cons f fs')
  obtain gp gks gls grs where f: "f = (gp, gks, gls, grs)" by (cases f) auto
  let ?t3 = "put_into_internal t2 gp pk (taddr Yr)"
  let ?X' = "ANode gp (list_insert (length gls) pk gks) (gls @ Yl # Yr # grs)"
  note ps = pending_step [OF p [unfolded Cons f]]
  from finish_internal_ok [OF ps(2)] obtain t' where
    t': "finish_internal ?t3 (taddr ?X') = Some t'" "done_ok ?t3 (leaves (plug fs' ?X')) t'"
    by blast
  let ?Ls = "leaves (plug fs (ANode x [pk] [Yl, Yr]))"
  have lv: "leaves (plug fs' ?X') = ?Ls"
    unfolding Cons f plug.simps by (rule leaves_plug_cong) simp
  have rz: "realizes (heap t2) (plug fs Yl)" "realizes (heap t2) Yr"
    using p by (simp_all add: pending_def)
  obtain L R where LR: "\<forall>t. leaves (plug fs t) = L @ leaves t @ R"
    using leaves_plug by blast
  have hl: "heap ?t3 a = heap t2 a" if "a \<in> set ?Ls" for a
  proof -
    have "a \<in> set (leaves (plug fs Yl)) \<or> a \<in> set (leaves Yr)"
      using that LR by auto
    then have "is_leaf (heap t2 a)" using leaves_is_leaf rz by blast
    then have "a \<noteq> gp" using ps(6) by auto
    then show ?thesis using ps(3) by simp
  qed
  have "done_ok t2 ?Ls t'"
    using done_ok_trans [OF t'(2) [unfolded lv]] hl ps(4,5) by simp
  then show ?thesis using ps(1) t'(1) by simp
qed

lemma is_chain_cong:
  "(\<And>a. a \<in> set ls \<Longrightarrow> next_leaf (h' a) = next_leaf (h a))
   \<Longrightarrow> is_chain h' x ls = is_chain h x ls"
proof (induction ls arbitrary: x)
  case Nil
  show ?case by (cases x) simp_all
next
  case (Cons b bs)
  show ?case
  proof (cases x)
    case None
    then show ?thesis by simp
  next
    case (Some a)
    have "is_chain h' (next_leaf (h a)) bs = is_chain h (next_leaf (h a)) bs"
      using Cons by simp
    then show ?thesis using Some Cons.prems [of b] by auto
  qed
qed

lemma is_chain_split:
  assumes "is_chain h x (L @ a # R)" and "distinct (L @ a # R)" and "b \<notin> set (L @ a # R)"
    and ha: "next_leaf (h' a) = Some b" and hb: "next_leaf (h' b) = next_leaf (h a)"
    and ho: "\<And>c. c \<noteq> a \<Longrightarrow> c \<noteq> b \<Longrightarrow> next_leaf (h' c) = next_leaf (h c)"
  shows "is_chain h' x (L @ a # b # R)"
  using assms(1-3)
proof (induction L arbitrary: x)
  case Nil
  then obtain x' where x: "x = Some x'" by (cases x) auto
  have "is_chain h' (next_leaf (h a)) R = is_chain h (next_leaf (h a)) R"
    using Nil.prems by (intro is_chain_cong ho) auto
  then show ?case using Nil.prems x ha hb by auto
next
  case (Cons l L)
  then obtain x' where x: "x = Some x'" by (cases x) auto
  have "next_leaf (h' l) = next_leaf (h l)" using Cons.prems ho [of l] by auto
  then show ?case using Cons x by auto
qed

lemma hd_chain_split: "hd (L @ a # b # R) = hd (L @ a # R)"
  by (cases L) auto

lemma distinct_concat_leaves:
  "distinct (concat (map addrs ts)) \<Longrightarrow> (\<And>t. t \<in> set ts \<Longrightarrow> distinct (leaves t))
   \<Longrightarrow> distinct (concat (map leaves ts))"
proof (induction ts)
  case Nil
  show ?case by simp
next
  case (Cons t ts)
  have sub: "set (concat (map leaves ts)) \<subseteq> set (concat (map addrs ts))"
    using leaves_subset_addrs by fastforce
  have "set (addrs t) \<inter> set (concat (map addrs ts)) = {}"
    using Cons.prems(1) by simp
  then have "set (leaves t) \<inter> set (concat (map leaves ts)) = {}"
    using sub leaves_subset_addrs [of t] by blast
  moreover have "distinct (leaves t)" using Cons.prems(2) by simp
  moreover have "distinct (concat (map leaves ts))"
    using Cons.IH Cons.prems by simp
  ultimately show ?case by simp
qed

lemma distinct_leaves: "distinct (addrs T) \<Longrightarrow> distinct (leaves T)"
proof (induction T)
  case (ALeaf a ks vs)
  show ?case by simp
next
  case (ANode a ks ts)
  have d: "distinct (concat (map addrs ts))" using ANode.prems by simp
  have "distinct (addrs t)" if "t \<in> set ts" for t
    using d that by (induction ts) auto
  then have "distinct (leaves t)" if "t \<in> set ts" for t
    using ANode.IH that by blast
  then show ?case using distinct_concat_leaves [OF d] by simp
qed

lemma concat_leaf_keys:
  "(\<And>t. t \<in> set ts \<Longrightarrow> lkeys t = concat (map f (leaves t)))
   \<Longrightarrow> concat (map lkeys ts) = concat (map f (concat (map leaves ts)))"
  by (induction ts) simp_all

lemma lkeys_realizes:
  "realizes h T \<Longrightarrow> lkeys T = concat (map (\<lambda>a. keys (h a)) (leaves T))"
proof (induction T)
  case (ALeaf a ks vs)
  then show ?case by simp
next
  case (ANode a ks ts)
  have "lkeys t = concat (map (\<lambda>a. keys (h a)) (leaves t))" if "t \<in> set ts" for t
    using ANode.IH [OF that] ANode.prems that by simp
  then show ?case using concat_leaf_keys [of ts "\<lambda>a. keys (h a)"] by simp
qed

subsection \<open>The split of a leaf\<close>

lemma split_leaf_after_cut:
  assumes "keys (heap t leaf) \<noteq> []"
  shows "split_leaf t leaf =
     after_cut (cut_leaf t leaf) leaf
       (keys (heap t leaf) ! (length (keys (heap t leaf)) div 2)) (next_addr t)"
proof -
  have "0 < length (keys (heap t leaf))" using assms by simp
  then have "\<not> length (keys (heap t leaf)) div 2 \<ge> length (keys (heap t leaf))"
    by presburger
  then have "(length (keys (heap t leaf)) div 2 \<ge> length (keys (heap t leaf))) = False"
    by simp
  then show ?thesis
    unfolding split_leaf_def after_cut_def cut_leaf_def Let_def by (simp only: if_False)
qed

lemma sorted_cut:
  assumes s: "sorted_wrt (<) (ks :: bytes list)" and m: "m < length ks"
  shows "sorted_wrt (<) (take m ks)" and "sorted_wrt (<) (drop m ks)"
    and "\<forall>k \<in> set (take m ks). k < ks ! m" and "\<forall>k \<in> set (drop m ks). ks ! m \<le> k"
proof -
  have a: "sorted_wrt (<) (take m ks @ drop m ks)" using s by simp
  show t: "sorted_wrt (<) (take m ks)" and d: "sorted_wrt (<) (drop m ks)"
    using a unfolding sorted_wrt_append by blast+
  have c: "drop m ks = ks ! m # drop (Suc m) ks" using m by (simp add: Cons_nth_drop_Suc)
  have "ks ! m \<in> set (drop m ks)" by (subst c) simp
  then show "\<forall>k \<in> set (take m ks). k < ks ! m"
    using a unfolding sorted_wrt_append by blast
  show "\<forall>k \<in> set (drop m ks). ks ! m \<le> k"
    using d unfolding c by auto
qed

lemma cut_leaf_pending:
  assumes o: "2 \<le> order t2"
    and rz: "realizes (heap t2) (plug fs (ALeaf a ks vs))"
    and rt: "taddr (plug fs (ALeaf a ks vs)) = root t2"
    and d: "distinct (addrs (plug fs (ALeaf a ks vs)))"
    and b: "\<forall>x \<in> set (addrs (plug fs (ALeaf a ks vs))). x < next_addr t2"
    and od: "ord None None (plug fs (ALeaf a ks vs))"
    and cs: "ctx_small (order t2) fs"
    and len: "int (length ks) = order t2"
  shows "pending (cut_leaf t2 a) fs (ALeaf a (take (length ks div 2) ks) (take (length ks div 2) vs))
           (ks ! (length ks div 2))
           (ALeaf (next_addr t2) (drop (length ks div 2) ks) (drop (length ks div 2) vs))"
proof -
  let ?m = "length ks div 2"
  let ?q = "next_addr t2"
  let ?pk = "ks ! ?m"
  let ?Yl = "ALeaf a (take ?m ks) (take ?m vs)"
  let ?Yr = "ALeaf ?q (drop ?m ks) (drop ?m vs)"
  let ?t1 = "cut_leaf t2 a"
  have n2: "2 \<le> length ks" using o len by simp
  have m: "?m < length ks" "1 \<le> ?m" using n2 by simp_all
  have cr: "ctx_realizes (heap t2) fs a" and ra: "is_leaf (heap t2 a)" "keys (heap t2 a) = ks"
      "node_values (heap t2 a) = vs"
    using rz by (simp_all add: realizes_plug)
  have dd: "distinct (ctx_addrs fs)" "a \<notin> set (ctx_addrs fs)"
    using d by (simp_all add: distinct_addrs_plug)
  have bb: "\<forall>x \<in> set (ctx_addrs fs). x < ?q" "a < ?q"
    using b by (simp_all add: set_addrs_plug)
  have qn: "?q \<notin> set (ctx_addrs fs)" "?q \<noteq> a" using bb by auto
  define h1 where "h1 = heap ?t1"
  have h1: "h1 = (heap t2)(?q := leaf_node (drop ?m ks) (drop ?m vs) (next_leaf (heap t2 a)),
                    a := (heap t2 a)\<lparr>keys := take ?m ks, node_values := take ?m vs,
                                     next_leaf := Some ?q\<rparr>)"
    unfolding h1_def by (simp add: cut_leaf_def Let_def ra)
  have t1: "order ?t1 = order t2" "root ?t1 = root t2" "next_addr ?t1 = Suc ?q"
    by (simp_all add: cut_leaf_def Let_def)
  have "ctx_realizes h1 fs a = ctx_realizes (heap t2) fs a"
    by (rule ctx_realizes_cong) (use dd qn in \<open>auto simp: h1\<close>)
  then have c1: "ctx_realizes h1 fs a" using cr by simp
  have r1: "realizes h1 ?Yl" using ra by (simp add: h1)
  have r2: "realizes h1 ?Yr" using qn by (simp add: h1 leaf_node_def)
  have p1: "realizes h1 (plug fs ?Yl)" using c1 r1 by (simp add: realizes_plug)
  have p2: "taddr (plug fs ?Yl) = root t2"
    using rt top_plug_cong [of ?Yl "ALeaf a ks vs" fs] by simp
  have p3: "distinct (addrs (plug fs ?Yl) @ addrs ?Yr)"
    using dd qn by (simp add: distinct_addrs_plug set_addrs_plug)
  have p4: "\<forall>x \<in> set (addrs (plug fs ?Yl) @ addrs ?Yr). x < Suc ?q"
    using bb by (auto simp: set_addrs_plug less_Suc_eq)
  from ord_hole [OF od] obtain lo hi where
    ho: "hole_ord None None fs lo hi" and ol: "ord lo hi (ALeaf a ks vs)" by blast
  have s: "sorted_wrt (<) ks" and bd: "\<forall>k \<in> set ks. lo_le lo k \<and> hi_gt hi k"
    and lv: "length vs = length ks"
    using ol by simp_all
  note sc = sorted_cut [OF s m(1)]
  have k0: "ks ! 0 < ?pk" using s m by (simp add: sorted_wrt_nth_less)
  have "0 < length ks" using n2 by linarith
  then have "ks ! 0 \<in> set ks" by (rule nth_mem)
  then have "lo_le lo (ks ! 0)" using bd by blast
  then have bl: "blt lo (Some ?pk)"
    using k0 by (cases lo) (simp_all add: blt_def lo_le_def hi_gt_def)
  have kin: "?pk \<in> set ks" using m by simp
  have br: "blt (Some ?pk) hi" using bd kin by (simp add: blt_def)
  have "\<forall>k \<in> set (take ?m ks). lo_le lo k \<and> hi_gt (Some ?pk) k"
    using sc(3) bd by (auto simp: hi_gt_def dest: in_set_takeD)
  then have o1: "ord lo (Some ?pk) ?Yl" using sc(1) lv bl by simp
  have "\<forall>k \<in> set (drop ?m ks). lo_le (Some ?pk) k \<and> hi_gt hi k"
    using sc(4) bd by (auto simp: lo_le_def dest: in_set_dropD)
  then have o2: "ord (Some ?pk) hi ?Yr" using sc(2) lv br by simp
  have s1: "small (order t2) ?Yl" using m len by simp
  have s2: "small (order t2) ?Yr" using m len by simp
  have "\<exists>lo hi. hole_ord None None fs lo hi \<and> ord lo (Some ?pk) ?Yl \<and> ord (Some ?pk) hi ?Yr"
    using ho o1 o2 by blast
  then show ?thesis
    unfolding pending_def t1 h1_def [symmetric]
    using o p1 r2 p2 p3 p4 cs s1 s2 by blast
qed

subsection \<open>Writing into a leaf\<close>

lemma lkeys_plug: "\<exists>L R. \<forall>t. lkeys (plug fs t) = L @ lkeys t @ R"
proof (induction fs)
  case Nil
  have "\<forall>t. lkeys (plug [] t) = [] @ lkeys t @ []" by simp
  then show ?case by blast
next
  case (Cons f fs)
  obtain a ks ls rs where f: "f = (a, ks, ls, rs)" by (cases f) auto
  obtain L R where LR: "\<forall>t. lkeys (plug fs t) = L @ lkeys t @ R" using Cons by blast
  have "\<forall>t. lkeys (plug (f # fs) t)
          = (L @ concat (map lkeys ls)) @ lkeys t @ (concat (map lkeys rs) @ R)"
    by (simp add: f LR)
  then show ?case by blast
qed

lemma addrs_plug_cong: "addrs t = addrs t' \<Longrightarrow> addrs (plug fs t) = addrs (plug fs t')"
  by (induction fs arbitrary: t t') auto

lemma set_lkeys_realizes:
  "realizes h T \<Longrightarrow> set (lkeys T) = (\<Union>a \<in> set (leaves T). set (keys (h a)))"
  by (simp add: lkeys_realizes)

text \<open>Writing new keys and values into the leaf of a descent.\<close>

lemma leaf_write:
  assumes rz: "realizes h (plug fs (ALeaf a ks vs))"
    and d: "distinct (addrs (plug fs (ALeaf a ks vs)))"
  shows "realizes (h(a := (h a)\<lparr>keys := ks', node_values := vs'\<rparr>)) (plug fs (ALeaf a ks' vs'))"
proof -
  let ?h = "h(a := (h a)\<lparr>keys := ks', node_values := vs'\<rparr>)"
  have cr: "ctx_realizes h fs a" and ra: "is_leaf (h a)"
    using rz by (simp_all add: realizes_plug)
  have "a \<notin> set (ctx_addrs fs)" using d by (simp add: distinct_addrs_plug)
  then have "ctx_realizes ?h fs a = ctx_realizes h fs a"
    by (intro ctx_realizes_cong) auto
  then show ?thesis using cr ra by (simp add: realizes_plug)
qed

subsection \<open>Insertion keeps a tree well formed\<close>

lemma union_keys_write:
  assumes "a \<notin> set L" "a \<notin> set R" "\<forall>c. c \<noteq> a \<longrightarrow> h' c = h c"
  shows "(\<Union>c \<in> set (L @ a # R). set (keys (h' c)))
         = (\<Union>c \<in> set (L @ R). set (keys (h c))) \<union> set (keys (h' a))"
proof -
  have "c \<noteq> a" if "c \<in> set (L @ R)" for c using that assms(1,2) by auto
  then have "\<forall>c \<in> set (L @ R). h' c = h c" using assms(3) by blast
  then have "(\<Union>c \<in> set (L @ R). set (keys (h' c))) = (\<Union>c \<in> set (L @ R). set (keys (h c)))"
    by simp
  moreover have "(\<Union>c \<in> set (L @ a # R). set (keys (h' c)))
        = (\<Union>c \<in> set (L @ R). set (keys (h' c))) \<union> set (keys (h' a))"
    by auto
  ultimately show ?thesis by simp
qed

lemma union_keys_split:
  assumes "a \<notin> set L" "a \<notin> set R" "b \<notin> set L" "b \<notin> set R"
    and "\<forall>c. c \<noteq> a \<longrightarrow> c \<noteq> b \<longrightarrow> h' c = h c"
  shows "(\<Union>c \<in> set (L @ a # b # R). set (keys (h' c)))
         = (\<Union>c \<in> set (L @ R). set (keys (h c))) \<union> set (keys (h' a)) \<union> set (keys (h' b))"
proof -
  have "c \<noteq> a \<and> c \<noteq> b" if "c \<in> set (L @ R)" for c using that assms(1-4) by auto
  then have "\<forall>c \<in> set (L @ R). h' c = h c" using assms(5) by blast
  then have "(\<Union>c \<in> set (L @ R). set (keys (h' c))) = (\<Union>c \<in> set (L @ R). set (keys (h c)))"
    by simp
  moreover have "(\<Union>c \<in> set (L @ a # b # R). set (keys (h' c)))
        = (\<Union>c \<in> set (L @ R). set (keys (h' c))) \<union> set (keys (h' a)) \<union> set (keys (h' b))"
    by auto
  ultimately show ?thesis by simp
qed

lemma insert_bytes_wf:
  assumes w: "wf_abs t M" and fresh: "key_to_value t kb = None"
  shows "\<exists>t' M'. insert_bytes t kb v = Some t' \<and> wf_abs t' M' \<and> order t' = order t
            \<and> key_to_value t' = (key_to_value t)(kb := Some v)"
proof -
  have rz: "realizes (heap t) M" and rt: "taddr M = root t" and d: "distinct (addrs M)"
    and b: "\<forall>x \<in> set (addrs M). x < next_addr t" and od: "ord None None M"
    and sm: "small (order t) M" and o: "2 \<le> order t"
    and ch: "is_chain (heap t) (Some (hd (leaves M))) (leaves M)"
    and km: "set (lkeys M) = dom (key_to_value t)"
    using w by (simp_all add: wf_abs_def wf_core_def)
  have "lo_le None kb" "hi_gt None kb" by (simp_all add: lo_le_def hi_gt_def)
  from find_leaf_plug [OF rz od this] obtain fs a ks vs lo' hi' where
    M: "M = plug fs (ALeaf a ks vs)" and fl: "find_leaf (heap t) (root t) kb = Some a"
    and ol: "ord lo' hi' (ALeaf a ks vs)" and bk: "lo_le lo' kb" "hi_gt hi' kb"
    and rp: "\<forall>t'. ord lo' hi' t' \<longrightarrow> ord None None (plug fs t')"
    unfolding rt by blast
  obtain L R where LR: "\<forall>t. leaves (plug fs t) = L @ leaves t @ R"
    using leaves_plug by blast
  obtain KL KR where KLR: "\<forall>t. lkeys (plug fs t) = KL @ lkeys t @ KR"
    using lkeys_plug by blast
  have lvM: "leaves M = L @ a # R" by (simp add: M LR)
  have dl: "distinct (L @ a # R)" using distinct_leaves [OF d] lvM by simp
  have ra: "is_leaf (heap t a)" "keys (heap t a) = ks" "node_values (heap t a) = vs"
    using rz by (simp_all add: M realizes_plug)
  have "kb \<notin> dom (key_to_value t)" using fresh by auto
  moreover have "set ks \<subseteq> set (lkeys M)" by (auto simp: M KLR)
  ultimately have nk: "kb \<notin> set ks" using km by blast
  define i where "i = insert_index ks kb"
  define ks' where "ks' = list_insert i kb ks"
  define vs' where "vs' = list_insert i v vs"
  define Lf where "Lf = ALeaf a ks' vs'"
  define t2 where "t2 = insert_into_leaf (t\<lparr>key_to_value := (key_to_value t)(kb := Some v)\<rparr>) a kb v"
  define h2 where "h2 = (heap t)(a := (heap t a)\<lparr>keys := ks', node_values := vs'\<rparr>)"
  have t2: "heap t2 = h2" "order t2 = order t" "root t2 = root t" "next_addr t2 = next_addr t"
      "key_to_value t2 = (key_to_value t)(kb := Some v)"
    by (simp_all add: t2_def h2_def insert_into_leaf_def Let_def ra ks'_def vs'_def i_def)
  have h2a: "keys (h2 a) = ks'" "node_values (h2 a) = vs'" "next_leaf (h2 a) = next_leaf (heap t a)"
    and h2o: "\<forall>c. c \<noteq> a \<longrightarrow> h2 c = heap t c"
    by (simp_all add: h2_def)
  have ib: "insert_bytes t kb v
              = (if int (length ks') \<ge> order t then split_leaf t2 a else Some t2)"
    using fl t2(1,2) h2a(1) by (simp add: insert_bytes_def Let_def t2_def [symmetric])
  have s: "sorted_wrt (<) ks" and bd: "\<forall>k \<in> set ks. lo_le lo' k \<and> hi_gt hi' k"
    and lv: "length vs = length ks" and bl: "blt lo' hi'"
    using ol by simp_all
  have "sorted_wrt (<) ks'" unfolding ks'_def i_def by (rule insert_index_sorted [OF s nk])
  moreover have "\<forall>k \<in> set ks'. lo_le lo' k \<and> hi_gt hi' k"
    using bd bk by (simp add: ks'_def set_list_insert)
  moreover have lv': "length vs' = length ks'"
    using lv by (simp add: ks'_def vs'_def length_list_insert)
  ultimately have "ord lo' hi' Lf" using bl by (simp add: Lf_def)
  then have od2: "ord None None (plug fs Lf)" using rp by blast
  have rz2: "realizes h2 (plug fs Lf)"
    unfolding h2_def Lf_def by (rule leaf_write [OF rz [unfolded M] d [unfolded M]])
  have ad: "addrs (plug fs Lf) = addrs M"
    unfolding M Lf_def by (rule addrs_plug_cong) simp
  have tp: "taddr (plug fs Lf) = root t"
    using rt top_plug_cong [of Lf "ALeaf a ks vs" fs] by (simp add: M Lf_def)
  have lvs: "leaves (plug fs Lf) = L @ a # R" by (simp add: LR Lf_def)
  have cs: "ctx_small (order t) fs" and sa: "int (length ks) < order t"
    using sm by (simp_all add: M small_plug)
  have len: "length ks' = Suc (length ks)" by (simp add: ks'_def length_list_insert)
  have ch2: "is_chain h2 (Some (hd (L @ a # R))) (L @ a # R)"
    using ch is_chain_cong [of "L @ a # R" h2 "heap t"] by (simp add: lvM h2_def)
  have keysM: "set (lkeys M) = (\<Union>c \<in> set (L @ R). set (keys (heap t c))) \<union> set ks"
    using set_lkeys_realizes [OF rz] ra(2) by (auto simp: lvM)
  have ksk: "set ks' = insert kb (set ks)" by (simp add: ks'_def set_list_insert)
  have dm: "dom ((key_to_value t)(kb := Some v)) = insert kb (dom (key_to_value t))" by simp
  show ?thesis
  proof (cases "int (length ks') \<ge> order t")
    case False
    have "small (order t) (plug fs Lf)" using cs False by (simp add: small_plug Lf_def)
    then have "wf_core t2 (plug fs Lf)"
      using rz2 tp d b od2 by (simp add: wf_core_def t2 ad)
    moreover have "set (lkeys (plug fs Lf)) = insert kb (set (lkeys M))"
      using ksk by (simp add: KLR M Lf_def)
    ultimately have "wf_abs t2 (plug fs Lf)"
      using o ch2 km by (simp add: wf_abs_def t2 lvs)
    then show ?thesis using ib False t2 by auto
  next
    case True
    then have ln: "int (length ks') = order t2" using sa len by (simp add: t2)
    define m where "m = length ks' div 2"
    define q where "q = next_addr t"
    define pk where "pk = ks' ! m"
    define Yl where "Yl = ALeaf a (take m ks') (take m vs')"
    define Yr where "Yr = ALeaf q (drop m ks') (drop m vs')"
    define t3 where "t3 = cut_leaf t2 a"
    have ne: "keys (heap t2 a) \<noteq> []" using len by (auto simp: t2 h2a)
    have pd: "pending t3 fs Yl pk Yr"
      unfolding t3_def Yl_def Yr_def pk_def m_def q_def t2(4) [symmetric]
      by (rule cut_leaf_pending [of t2 fs a ks' vs'])
         (use o rz2 tp d b od2 cs ln in \<open>simp_all add: t2 Lf_def [symmetric] ad\<close>)
    from after_cut_ok [OF pd, of 0] obtain t' where
      ac: "after_cut t3 a pk q = Some t'"
      and dn: "done_ok t3 (leaves (plug fs (ANode 0 [pk] [Yl, Yr]))) t'"
      by (auto simp: Yl_def Yr_def)
    have sl: "split_leaf t2 a = Some t'"
      using split_leaf_after_cut [OF ne] ac
      by (simp add: t3_def pk_def m_def q_def t2 h2a)
    have lv3: "leaves (plug fs (ANode 0 [pk] [Yl, Yr])) = L @ a # q # R"
      by (simp add: LR Yl_def Yr_def)
    from dn obtain M' where
      M': "wf_core t' M'" "leaves M' = L @ a # q # R"
      and hp: "\<forall>c \<in> set (L @ a # q # R). heap t' c = heap t3 c"
      and kv: "key_to_value t' = key_to_value t3" "order t' = order t3"
      unfolding done_ok_def lv3 by blast
    have t3: "order t3 = order t" "key_to_value t3 = (key_to_value t)(kb := Some v)"
      by (simp_all add: t3_def cut_leaf_def Let_def t2)
    have "\<forall>x \<in> set (leaves M). x < q"
      using b leaves_subset_addrs [of M] unfolding q_def by blast
    then have qn: "q \<notin> set (L @ a # R)" unfolding lvM by blast
    then have qa: "next_addr t \<noteq> a" unfolding q_def by auto
    have h3: "keys (heap t3 a) = take m ks'" "keys (heap t3 q) = drop m ks'"
        "next_leaf (heap t3 a) = Some q" "next_leaf (heap t3 q) = next_leaf (heap t a)"
      and h3o: "\<forall>c. c \<noteq> a \<longrightarrow> c \<noteq> q \<longrightarrow> heap t3 c = heap t c"
      using qa by (simp_all add: t3_def cut_leaf_def Let_def t2 h2a h2o m_def q_def leaf_node_def)
    have "is_chain (heap t3) (Some (hd (L @ a # R))) (L @ a # q # R)"
      by (rule is_chain_split [OF ch [unfolded lvM] dl qn])
         (use h3 h3o in simp_all)
    then have "is_chain (heap t') (Some (hd (L @ a # q # R))) (L @ a # q # R)"
      using is_chain_cong [of "L @ a # q # R" "heap t'" "heap t3"] hp
      by (simp add: hd_chain_split)
    moreover have "set (lkeys M') = insert kb (set (lkeys M))"
    proof -
      have "realizes (heap t') M'" using M'(1) by (simp add: wf_core_def)
      then have "set (lkeys M') = (\<Union>c \<in> set (L @ a # q # R). set (keys (heap t' c)))"
        using set_lkeys_realizes M'(2) by metis
      also have "\<dots> = (\<Union>c \<in> set (L @ a # q # R). set (keys (heap t3 c)))"
        using hp by simp
      also have "\<dots> = (\<Union>c \<in> set (L @ R). set (keys (heap t c)))
                        \<union> set (keys (heap t3 a)) \<union> set (keys (heap t3 q))"
        by (rule union_keys_split) (use dl qn h3o in auto)
      also have "\<dots> = (\<Union>c \<in> set (L @ R). set (keys (heap t c))) \<union> set ks'"
        unfolding h3 using set_append [of "take m ks'" "drop m ks'"] by (auto simp del: set_append)
      finally show ?thesis using keysM ksk by auto
    qed
    ultimately have "wf_abs t' M'"
      using M' o km by (simp add: wf_abs_def kv t3)
    then show ?thesis using ib True sl kv t3 by auto
  qed
qed

subsection \<open>Deletion keeps a tree well formed\<close>

lemma first_match_some:
  "kb \<in> set ks \<Longrightarrow> \<exists>i. first_match ks kb = Some i \<and> i < length ks \<and> ks ! i = kb"
  by (induction ks) auto

lemma sorted_list_pop:
  assumes "sorted_wrt (<) (ks :: bytes list)" and "i < length ks"
  shows "sorted_wrt (<) (list_pop i ks)" and "set (list_pop i ks) = set ks - {ks ! i}"
proof -
  have e: "ks = take i ks @ ks ! i # drop (Suc i) ks"
    using assms(2) by (simp add: id_take_nth_drop [symmetric])
  have s: "sorted_wrt (<) (take i ks @ ks ! i # drop (Suc i) ks)"
    using assms(1) e by simp
  then show "sorted_wrt (<) (list_pop i ks)"
    unfolding list_pop_def sorted_wrt_append by auto
  have "ks ! i \<notin> set (take i ks) \<union> set (drop (Suc i) ks)"
    using s unfolding sorted_wrt_append by auto
  moreover have "set ks = set (take i ks) \<union> {ks ! i} \<union> set (drop (Suc i) ks)"
    by (subst e) (simp del: append_take_drop_id)
  ultimately show "set (list_pop i ks) = set ks - {ks ! i}"
    unfolding list_pop_def by auto
qed

text \<open>The leaf that the descent for a stored key ends in holds the key.\<close>

lemma find_leaf_holds_key:
  assumes ol: "ord lo' hi' (ALeaf a ks (vs :: 'v list))" and bk: "lo_le lo' kb" "hi_gt hi' kb"
    and rp: "\<forall>t'. ord lo' hi' t' \<longrightarrow> ord None None (plug fs t')"
    and st: "kb \<in> set (lkeys (plug fs (ALeaf a ks vs)))"
  shows "kb \<in> set ks"
proof (rule ccontr)
  assume nk: "kb \<notin> set ks"
  obtain KL KR where KLR: "\<forall>t :: 'v atree. lkeys (plug fs t) = KL @ lkeys t @ KR"
    using lkeys_plug by blast
  have out: "kb \<in> set KL \<union> set KR" using st nk by (auto simp: KLR)
  obtain x :: 'v where "x = x" by simp
  define i where "i = insert_index ks kb"
  define Lf where "Lf = ALeaf a (list_insert i kb ks) (list_insert i x vs)"
  have s: "sorted_wrt (<) ks" and bd: "\<forall>k \<in> set ks. lo_le lo' k \<and> hi_gt hi' k"
    and lv: "length vs = length ks" and bl: "blt lo' hi'"
    using ol by simp_all
  have "sorted_wrt (<) (list_insert i kb ks)"
    unfolding i_def by (rule insert_index_sorted [OF s nk])
  then have "ord lo' hi' Lf"
    using bd bk lv bl by (simp add: Lf_def set_list_insert length_list_insert)
  then have "ord None None (plug fs Lf)" using rp by blast
  then have "sorted_wrt (<) (lkeys (plug fs Lf))" using ord_lkeys by blast
  then have "distinct (KL @ list_insert i kb ks @ KR)"
    by (simp add: KLR Lf_def strict_sorted_iff del: distinct_append)
  then show False using out by (auto simp: set_list_insert)
qed

lemma delete_bytes_wf:
  assumes w: "wf_abs t M"
  shows "\<exists>t' M'. delete_bytes t kb = Some (t', key_to_value t kb \<noteq> None) \<and> wf_abs t' M'
            \<and> order t' = order t \<and> key_to_value t' = (key_to_value t)(kb := None)"
proof (cases "key_to_value t kb = None")
  case True
  then have "(key_to_value t)(kb := None) = key_to_value t" by auto
  then show ?thesis using True w by (auto simp: delete_bytes_def)
next
  case False
  have rz: "realizes (heap t) M" and rt: "taddr M = root t" and d: "distinct (addrs M)"
    and b: "\<forall>x \<in> set (addrs M). x < next_addr t" and od: "ord None None M"
    and sm: "small (order t) M" and o: "2 \<le> order t"
    and ch: "is_chain (heap t) (Some (hd (leaves M))) (leaves M)"
    and km: "set (lkeys M) = dom (key_to_value t)"
    using w by (simp_all add: wf_abs_def wf_core_def)
  have "lo_le None kb" "hi_gt None kb" by (simp_all add: lo_le_def hi_gt_def)
  from find_leaf_plug [OF rz od this] obtain fs a ks vs lo' hi' where
    M: "M = plug fs (ALeaf a ks vs)" and fl: "find_leaf (heap t) (root t) kb = Some a"
    and ol: "ord lo' hi' (ALeaf a ks vs)" and bk: "lo_le lo' kb" "hi_gt hi' kb"
    and rp: "\<forall>t'. ord lo' hi' t' \<longrightarrow> ord None None (plug fs t')"
    unfolding rt by blast
  obtain KL KR where KLR: "\<forall>t. lkeys (plug fs t) = KL @ lkeys t @ KR"
    using lkeys_plug by blast
  obtain L R where LR: "\<forall>t. leaves (plug fs t) = L @ leaves t @ R"
    using leaves_plug by blast
  have ra: "is_leaf (heap t a)" "keys (heap t a) = ks" "node_values (heap t a) = vs"
    using rz by (simp_all add: M realizes_plug)
  have "kb \<in> set (lkeys (plug fs (ALeaf a ks vs)))" using False km by (auto simp: M)
  from find_leaf_holds_key [OF ol bk rp this] have "kb \<in> set ks" .
  from first_match_some [OF this] obtain i where
    i: "first_match ks kb = Some i" "i < length ks" "ks ! i = kb" by blast
  have s: "sorted_wrt (<) ks" and bd: "\<forall>k \<in> set ks. lo_le lo' k \<and> hi_gt hi' k"
    and lv: "length vs = length ks" and bl: "blt lo' hi'"
    using ol by simp_all
  define ks' where "ks' = list_pop i ks"
  define vs' where "vs' = list_pop i vs"
  define Lf where "Lf = ALeaf a ks' vs'"
  define h2 where "h2 = (heap t)(a := (heap t a)\<lparr>keys := ks', node_values := vs'\<rparr>)"
  define t2 where "t2 = t\<lparr>key_to_value := (key_to_value t)(kb := None), heap := h2\<rparr>"
  have db: "delete_bytes t kb = Some (t2, True)"
    using False fl i lv
    by (simp add: delete_bytes_def Let_def ra t2_def h2_def ks'_def vs'_def)
  note sp = sorted_list_pop [OF s i(2), folded ks'_def, unfolded i(3)]
  have "length vs' = length ks'" using lv i(2) by (simp add: ks'_def vs'_def list_pop_def)
  then have "ord lo' hi' Lf" using sp bd bl by (simp add: Lf_def)
  then have od2: "ord None None (plug fs Lf)" using rp by blast
  have rz2: "realizes h2 (plug fs Lf)"
    unfolding h2_def Lf_def by (rule leaf_write [OF rz [unfolded M] d [unfolded M]])
  have ad: "addrs (plug fs Lf) = addrs M"
    unfolding M Lf_def by (rule addrs_plug_cong) simp
  have tp: "taddr (plug fs Lf) = root t"
    using rt top_plug_cong [of Lf "ALeaf a ks vs" fs] by (simp add: M Lf_def)
  have lvs: "leaves (plug fs Lf) = leaves M" by (simp add: LR Lf_def M)
  have cs: "ctx_small (order t) fs" and sa: "int (length ks) < order t"
    using sm by (simp_all add: M small_plug)
  have "length ks' \<le> length ks" by (simp add: ks'_def list_pop_def)
  then have "small (order t) (plug fs Lf)" using cs sa by (simp add: small_plug Lf_def)
  then have core: "wf_core t2 (plug fs Lf)"
    using rz2 tp d b od2 by (simp add: wf_core_def t2_def ad)
  have ch2: "is_chain h2 (Some (hd (leaves M))) (leaves M)"
    using ch is_chain_cong [of "leaves M" h2 "heap t"] by (simp add: h2_def)
  have "sorted_wrt (<) (lkeys M)" using od ord_lkeys by blast
  then have "distinct (KL @ ks @ KR)"
    by (simp add: KLR M strict_sorted_iff del: distinct_append)
  then have "set (KL @ ks' @ KR) = set (KL @ ks @ KR) - {kb}"
    using sp(2) \<open>kb \<in> set ks\<close> by auto
  then have "set (lkeys (plug fs Lf)) = dom (key_to_value t) - {kb}"
    using km by (simp add: KLR M Lf_def)
  then have "wf_abs t2 (plug fs Lf)"
    using core o ch2 by (simp add: wf_abs_def lvs) (simp add: t2_def)
  then show ?thesis using db False by (auto simp: t2_def)
qed

subsection \<open>The invariants on the store\<close>

lemma ol_member: "ol P lo hi ks ts \<Longrightarrow> t \<in> set ts \<Longrightarrow> \<exists>l u. P l u t"
  using ol_mid [of P lo hi ks _ t] by (metis split_list)

lemma children_in_addrs:
  "realizes h T \<Longrightarrow> a \<in> set (addrs T) \<Longrightarrow> \<not> is_leaf (h a) \<Longrightarrow> c \<in> set (children (h a))
   \<Longrightarrow> c \<in> set (addrs T)"
proof (induction T)
  case (ALeaf b ks vs)
  then show ?case by simp
next
  case (ANode p ks ts)
  show ?case
  proof (cases "a = p")
    case True
    then obtain x where "x \<in> set ts" "c = taddr x" using ANode.prems by auto
    then show ?thesis using top_in_addrs [of x] by auto
  next
    case False
    then obtain x where x: "x \<in> set ts" "a \<in> set (addrs x)" using ANode.prems by auto
    then have "c \<in> set (addrs x)" using ANode.IH [OF x(1)] ANode.prems by simp
    then show ?thesis using x(1) by auto
  qed
qed

lemma nodes_of_trans: "a \<in> nodes_of h c \<Longrightarrow> c \<in> nodes_of h r \<Longrightarrow> a \<in> nodes_of h r"
  by (induction rule: nodes_of.induct) (auto intro: nodes_of.intros)

lemma addrs_in_nodes_of: "realizes h T \<Longrightarrow> a \<in> set (addrs T) \<Longrightarrow> a \<in> nodes_of h (taddr T)"
proof (induction T)
  case (ALeaf b ks vs)
  then show ?case by (simp add: nodes_of.nodes_root)
next
  case (ANode p ks ts)
  show ?case
  proof (cases "a = p")
    case True
    then show ?thesis by (simp add: nodes_of.nodes_root)
  next
    case False
    then obtain x where x: "x \<in> set ts" "a \<in> set (addrs x)" using ANode.prems by auto
    then have "a \<in> nodes_of h (taddr x)" using ANode.IH [OF x(1)] ANode.prems by simp
    moreover have "taddr x \<in> nodes_of h p"
      by (rule nodes_of.nodes_child [of p]) (use ANode.prems x(1) in \<open>auto intro: nodes_of.nodes_root\<close>)
    ultimately show ?thesis using nodes_of_trans by fastforce
  qed
qed

lemma nodes_of_addrs: "realizes h T \<Longrightarrow> nodes_of h (taddr T) = set (addrs T)"
proof (intro equalityI subsetI)
  fix a
  assume r: "realizes h T" and "a \<in> nodes_of h (taddr T)"
  from this(2) show "a \<in> set (addrs T)"
    by (induction rule: nodes_of.induct) (auto intro: top_in_addrs children_in_addrs [OF r])
next
  fix a
  assume "realizes h T" "a \<in> set (addrs T)"
  then show "a \<in> nodes_of h (taddr T)" by (rule addrs_in_nodes_of)
qed

lemma node_inv_addrs:
  "realizes h T \<Longrightarrow> ord lo hi T \<Longrightarrow> small n T \<Longrightarrow> a \<in> set (addrs T) \<Longrightarrow> node_inv n (h a)"
proof (induction T arbitrary: lo hi)
  case (ALeaf b ks vs)
  then show ?case by (simp add: node_inv_def)
next
  case (ANode p ks ts)
  show ?case
  proof (cases "a = p")
    case True
    have "sorted_wrt (<) ks" "length ts = Suc (length ks)"
      using ord_node_keys [OF ANode.prems(2)] by simp_all
    then show ?thesis using True ANode.prems(1,3) by (simp add: node_inv_def)
  next
    case False
    then obtain x where x: "x \<in> set ts" "a \<in> set (addrs x)" using ANode.prems by auto
    have "ol ord lo hi ks ts" using ANode.prems(2) by simp
    from ol_member [OF this x(1)] obtain l u where "ord l u x" by blast
    then show ?thesis using ANode.IH [OF x(1) _ _ _ x(2)] ANode.prems(1,3) x(1) by simp
  qed
qed

lemma leaves_nonempty: "ord lo hi T \<Longrightarrow> leaves T \<noteq> []"
proof (induction T arbitrary: lo hi)
  case (ALeaf b ks vs)
  show ?case by simp
next
  case (ANode p ks ts)
  have o: "ol ord lo hi ks ts" using ANode.prems by simp
  then have "ts \<noteq> []" using ol_length [OF o] by auto
  then obtain x xs where ts: "ts = x # xs" by (cases ts) auto
  from ol_member [OF o, of x] obtain l u where "ord l u x" by (auto simp: ts)
  then have "leaves x \<noteq> []" using ANode.IH [of x] by (simp add: ts)
  then show ?case by (simp add: ts)
qed

lemma leftmost_leaf_leaves:
  "realizes h T \<Longrightarrow> ord lo hi T \<Longrightarrow> leftmost_leaf h (taddr T) = Some (hd (leaves T))"
proof (induction T arbitrary: lo hi)
  case (ALeaf b ks vs)
  then show ?case by (subst leftmost_leaf.simps) simp
next
  case (ANode p ks ts)
  have o: "ol ord lo hi ks ts" using ANode.prems by simp
  then have "ts \<noteq> []" using ol_length [OF o] by auto
  then obtain x xs where ts: "ts = x # xs" by (cases ts) auto
  from ol_member [OF o, of x] obtain l u where ox: "ord l u x" by (auto simp: ts)
  have "leftmost_leaf h (taddr x) = Some (hd (leaves x))"
    using ANode.IH [of x l u] ox ANode.prems(1) by (simp add: ts)
  moreover have "leaves x \<noteq> []" using leaves_nonempty [OF ox] .
  ultimately show ?case
    using ANode.prems(1) by (subst leftmost_leaf.simps) (simp add: ts)
qed

lemma set_leaves: "realizes h T \<Longrightarrow> set (leaves T) = {a \<in> set (addrs T). is_leaf (h a)}"
proof (induction T)
  case (ALeaf b ks vs)
  then show ?case by auto
next
  case (ANode p ks ts)
  have "\<forall>x \<in> set ts. set (leaves x) = {a \<in> set (addrs x). is_leaf (h a)}"
    using ANode by simp
  then have "(\<Union>x \<in> set ts. set (leaves x)) = {a \<in> (\<Union>x \<in> set ts. set (addrs x)). is_leaf (h a)}"
    by auto
  then show ?case using ANode.prems by auto
qed

lemma wf_abs_tree_inv:
  assumes w: "wf_abs t M"
  shows "tree_inv t" and "stored_keys t = dom (key_to_value t)"
proof -
  have rz: "realizes (heap t) M" and rt: "taddr M = root t"
    and od: "ord None None M" and sm: "small (order t) M"
    and ch: "is_chain (heap t) (Some (hd (leaves M))) (leaves M)"
    and km: "set (lkeys M) = dom (key_to_value t)"
    using w by (simp_all add: wf_abs_def wf_core_def)
  have nd: "nodes_of (heap t) (root t) = set (addrs M)"
    using nodes_of_addrs [OF rz] rt by simp
  have ni: "\<forall>a \<in> nodes_of (heap t) (root t). node_inv (order t) (heap t a)"
    unfolding nd using node_inv_addrs [OF rz od sm] by blast
  have lm: "leftmost_leaf (heap t) (root t) = Some (hd (leaves M))"
    using leftmost_leaf_leaves [OF rz od] rt by simp
  have sl: "set (leaves M) = {a \<in> nodes_of (heap t) (root t). is_leaf (heap t a)}"
    unfolding nd by (rule set_leaves [OF rz])
  have "sorted_wrt (<) (lkeys M)" using ord_lkeys [OF od] by blast
  then have so: "sorted_wrt (<) (concat (map (\<lambda>a. keys (heap t a)) (leaves M)))"
    using lkeys_realizes [OF rz] by simp
  show "tree_inv t"
    unfolding tree_inv_def using ni lm ch sl so by blast
  show "stored_keys t = dom (key_to_value t)"
    unfolding stored_keys_def sl [symmetric] km [symmetric]
    using set_lkeys_realizes [OF rz] by simp
qed

lemma wf_abs_new_tree: "2 \<le> n \<Longrightarrow> wf_abs (new_tree n) (ALeaf 0 [] [])"
  by (simp add: wf_abs_def wf_core_def new_tree_def leaf_node_def blt_def)

lemma reachable_unique_wf:
  assumes "2 \<le> n" and "reachable_unique n t"
  shows "\<exists>M. wf_abs t M \<and> order t = n"
  using assms(2)
proof (induction rule: reachable_unique.induct)
  case reach_new
  have "order (new_tree n) = n" by (simp add: new_tree_def)
  then show ?case using wf_abs_new_tree [OF assms(1)] by blast
next
  case (reach_insert t key kb v t')
  then obtain M where M: "wf_abs t M" "order t = n" by blast
  have "insert_bytes t kb v = Some t'"
    using reach_insert.hyps(2,4) by (simp add: insert_key_def)
  then show ?case using insert_bytes_wf [OF M(1) reach_insert.hyps(3), of v] M(2) by auto
next
  case (reach_delete t key t' b)
  then obtain M where M: "wf_abs t M" "order t = n" by blast
  from reach_delete.hyps(2) obtain kb where "delete_bytes t kb = Some (t', b)"
    by (auto simp: delete_def split: sum.splits)
  then show ?case using delete_bytes_wf [OF M(1), of kb] M(2) by auto
qed

subsection \<open>The trees that the operations build\<close>

lemma reachable_insert_all:
  "reachable_unique n t \<Longrightarrow> insert_all_fresh t kvs \<Longrightarrow> insert_all t kvs = Some t'
   \<Longrightarrow> reachable_unique n t'"
proof (induction kvs arbitrary: t)
  case Nil
  then show ?case by simp
next
  case (Cons kv kvs)
  obtain key v where kv: "kv = (key, v)" by (cases kv) auto
  from Cons.prems(2) obtain kb t1 where
    s: "serialize_key key = Inr kb" "key_to_value t kb = None" "insert_key t key v = Some t1"
       "insert_all_fresh t1 kvs"
    by (auto simp: kv split: sum.splits option.splits)
  have "reachable_unique n t1" using reach_insert [OF Cons.prems(1) s(1,2,3)] .
  moreover have "insert_all t1 kvs = Some t'" using Cons.prems(3) s(3) by (simp add: kv)
  ultimately show ?case using Cons.IH s(4) by blast
qed

lemma insert_key_returns:
  assumes "2 \<le> n" and "reachable_unique n t"
    and "serialize_key key = Inr kb" and "key_to_value t kb = None"
  shows "\<exists>t'. insert_key t key v = Some t' \<and> key_to_value t' = (key_to_value t)(kb := Some v)"
proof -
  from reachable_unique_wf [OF assms(1,2)] obtain M where "wf_abs t M" by blast
  from insert_bytes_wf [OF this assms(4), of v] show ?thesis
    using assms(3) by (auto simp: insert_key_def)
qed

lemma delete_returns:
  assumes "2 \<le> n" and "reachable_unique n t" and "serialize_key key = Inr kb"
  shows "\<exists>t'. delete t key = Some (t', key_to_value t kb \<noteq> None)
              \<and> key_to_value t' = (key_to_value t)(kb := None)"
proof -
  from reachable_unique_wf [OF assms(1,2)] obtain M where "wf_abs t M" by blast
  from delete_bytes_wf [OF this, of kb] show ?thesis
    using assms(3) by (auto simp: delete_def)
qed

text \<open>
  C5, for trees without duplicate keys.  Let the order be at least 2.  In every tree that
  \<open>insert\<close> and \<open>delete\<close> calls build from a new tree, when no \<open>insert\<close> is
  given a key that \<open>key_to_value\<close> holds at that moment, the invariants hold: the keys
  of each node are strictly increasing, each node holds at most \<open>order - 1\<close> keys, a leaf
  has as many values as keys, an internal node has one child more than keys, and the
  \<open>next_leaf\<close> links from the leftmost leaf visit exactly the leaves of the tree, with
  strictly increasing keys along the whole chain.  Moreover the keys in the leaves are the
  keys of \<open>key_to_value\<close>.  By \<open>insert_key_returns\<close> and \<open>delete_returns\<close> above, every
  such call returns in these trees.
\<close>

theorem unique_keys_invariants:
  assumes "2 \<le> n" and "reachable_unique n t"
  shows "tree_inv t \<and> stored_keys t = dom (key_to_value t)"
proof -
  from reachable_unique_wf [OF assms] obtain M where "wf_abs t M" by blast
  then show ?thesis using wf_abs_tree_inv by blast
qed

text \<open>
  An instance: the tree after the inserts of 10, 20, 30, 40, 50 into a new tree of order 4
  and the delete of 30.
\<close>

theorem unique_keys_invariants_witness:
  "\<exists>t t'. insert_all (new_tree 4)
            [(KInt 10, ''a''), (KInt 20, ''b''), (KInt 30, ''c''), (KInt 40, ''d''),
             (KInt 50, ''e'')] = Some t
     \<and> delete t (KInt 30) = Some (t', True)
     \<and> reachable_unique 4 t'
     \<and> tree_inv t' \<and> stored_keys t' = dom (key_to_value t')"
proof -
  let ?kvs = "[(KInt 10, ''a''), (KInt 20, ''b''), (KInt 30, ''c''), (KInt 40, ''d''),
               (KInt 50, ''e'')]"
  have fr: "insert_all_fresh (new_tree 4) ?kvs" by code_simp
  have "Option.bind (insert_all (new_tree 4) ?kvs) (\<lambda>t. map_option snd (delete t (KInt 30)))
          = Some True"
    by code_simp
  then obtain t t' where t: "insert_all (new_tree 4) ?kvs = Some t"
    and t': "delete t (KInt 30) = Some (t', True)"
    by (auto simp: bind_eq_Some_conv)
  have "reachable_unique 4 t"
    using reachable_insert_all [OF reach_new fr t] .
  then have r: "reachable_unique 4 t'" using reach_delete t' by blast
  have "tree_inv t' \<and> stored_keys t' = dom (key_to_value t')"
    using unique_keys_invariants [of 4 t'] r by simp
  then show ?thesis using t t' r by blast
qed

end
